theory Spec2Isabelle
  imports Complex_Main
begin

section \<open>Forest fire cellular automaton: data model\<close>

text \<open>
  Shallow embedding of \<^verbatim>\<open>sem5/SimulationAndModelling/simulation.py\<close>.
  Python floats are idealised as \<^typ>\<open>real\<close> (rounding is not modelled), Python and
  numpy integers as \<^typ>\<open>int\<close> and \<^typ>\<open>nat\<close>.  Every random draw of the program
  is an explicit argument of the operation that makes it.
\<close>

datatype cell = EMPTY | TREE | BURNING | BURNT

type_synonym grid = "cell list list"

definition GRID_WIDTH :: nat where
  "GRID_WIDTH = 120"

definition GRID_HEIGHT :: nat where
  "GRID_HEIGHT = 80"

text \<open>The five slider values (\<^verbatim>\<open>self.sliders[i].val\<close>), in the order of the list.\<close>

record sliders =
  slider0 :: real
  slider1 :: real
  slider2 :: real
  slider3 :: real
  slider4 :: real

record sim =
  grid :: grid
  running :: bool
  paused :: bool
  tree_density :: real
  wind_dir :: real
  wind_str :: real
  moisture :: real
  temperature :: real
  fire_prob :: real
  sliders :: sliders

datatype error = ValueError

text \<open>
  The state that \<^verbatim>\<open>__init__\<close> builds before it calls \<^verbatim>\<open>_init_forest\<close>: a grid of
  zeros (\<^verbatim>\<open>EMPTY\<close>), both flags off, the default parameters, and the sliders at their
  initial values.  The grid dimensions are the module constants; the operations take
  them as arguments \<open>H\<close> and \<open>W\<close>, and the program passes \<^verbatim>\<open>GRID_HEIGHT\<close> and
  \<^verbatim>\<open>GRID_WIDTH\<close>.
\<close>

definition new_sim :: "nat \<Rightarrow> nat \<Rightarrow> sim" where
  "new_sim H W =
     \<lparr>grid = replicate H (replicate W EMPTY), running = False, paused = False,
      tree_density = 0.6, wind_dir = 0, wind_str = 0.5, moisture = 0.2, temperature = 25,
      fire_prob = 0.3,
      sliders = \<lparr>slider0 = 0.6, slider1 = 0, slider2 = 0.5, slider3 = 0.2, slider4 = 25\<rparr>\<rparr>"

subsection \<open>Helper functions\<close>

definition clamp :: "real \<Rightarrow> real \<Rightarrow> real \<Rightarrow> real" where
  "clamp val lo hi = max lo (min hi val)"

subsection \<open>Parameter model\<close>

definition sync_params :: "sim \<Rightarrow> sim" where
  "sync_params s =
     (let s1 = s\<lparr>tree_density := slider0 (sliders s),
                 wind_dir := slider1 (sliders s),
                 wind_str := slider2 (sliders s)\<rparr>;
          s2 = s1\<lparr>moisture := slider3 (sliders s1),
                  temperature := slider4 (sliders s1)\<rparr>;
          temp_factor = clamp ((temperature s2 - 10) / 40) 0 1
      in s2\<lparr>fire_prob :=
            clamp (0.15 + 0.5 * temp_factor + 0.2 * wind_str s2 - 0.4 * moisture s2) 0.05 0.95\<rparr>)"

text \<open>
  The specification's wording of the derived value, kept apart from the code: a clamp
  written by cases, the temperature factor, and the fire probability as a function of
  the five parameters.
\<close>

definition spec_clamp :: "real \<Rightarrow> real \<Rightarrow> real \<Rightarrow> real" where
  "spec_clamp v lo hi = (if v < lo then lo else if hi < v then hi else v)"

definition spec_temp_factor :: "real \<Rightarrow> real" where
  "spec_temp_factor t = spec_clamp ((t - 10) / 40) 0 1"

definition derive_fire_probability ::
  "real \<Rightarrow> real \<Rightarrow> real \<Rightarrow> real \<Rightarrow> real \<Rightarrow> real" where
  "derive_fire_probability td wd ws m t =
     spec_clamp (0.15 + 0.5 * spec_temp_factor t + 0.2 * ws - 0.4 * m) 0.05 0.95"

definition with_params :: "real \<Rightarrow> real \<Rightarrow> real \<Rightarrow> real \<Rightarrow> real \<Rightarrow> sim \<Rightarrow> sim" where
  "with_params td wd ws m t s =
     s\<lparr>sliders := \<lparr>slider0 = td, slider1 = wd, slider2 = ws, slider3 = m, slider4 = t\<rparr>\<rparr>"

subsection \<open>Grid access\<close>

text \<open>
  The grid is a numpy array of shape \<^verbatim>\<open>(GRID_HEIGHT, GRID_WIDTH)\<close>: a list of rows.
  Every index the program uses is checked against the bounds before the access, so
  \<open>cell_at\<close> and \<open>set_cell\<close> are only ever applied inside the grid.
\<close>

definition wf_grid :: "nat \<Rightarrow> nat \<Rightarrow> grid \<Rightarrow> bool" where
  "wf_grid H W g = (length g = H \<and> list_all (\<lambda>r. length r = W) g)"

definition cell_at :: "grid \<Rightarrow> nat \<Rightarrow> nat \<Rightarrow> cell" where
  "cell_at g y x = g ! y ! x"

definition set_cell :: "grid \<Rightarrow> nat \<Rightarrow> nat \<Rightarrow> cell \<Rightarrow> grid" where
  "set_cell g y x c = g[y := (g ! y)[x := c]]"

text \<open>\<^verbatim>\<open>np.argwhere(grid == c)\<close>: the positions holding \<open>c\<close>, in row-major order.\<close>

definition argwhere :: "grid \<Rightarrow> cell \<Rightarrow> (nat \<times> nat) list" where
  "argwhere g c =
     concat (map (\<lambda>y. map (\<lambda>x. (y, x)) (filter (\<lambda>x. g ! y ! x = c) [0..<length (g ! y)]))
                 [0..<length g])"

text \<open>\<^verbatim>\<open>np.any(grid == c)\<close>.\<close>

definition any_cell :: "grid \<Rightarrow> cell \<Rightarrow> bool" where
  "any_cell g c = list_ex (\<lambda>r. c \<in> set r) g"

subsection \<open>Wind bias\<close>

text \<open>
  \<^verbatim>\<open>math.atan2(y, x)\<close> and \<^verbatim>\<open>math.radians\<close> by their mathematical definitions; the
  arguments here are integers, so no signed zero occurs.
\<close>

definition atan2 :: "real \<Rightarrow> real \<Rightarrow> real" where
  "atan2 y x =
     (if 0 < x then arctan (y / x)
      else if x < 0 then (if 0 \<le> y then arctan (y / x) + pi else arctan (y / x) - pi)
      else if 0 < y then pi / 2
      else if y < 0 then - (pi / 2)
      else 0)"

definition radians :: "real \<Rightarrow> real" where
  "radians d = d * pi / 180"

definition wind_angle :: "int \<Rightarrow> int \<Rightarrow> real" where
  "wind_angle dy dx = atan2 (of_int dx) (of_int (- dy)) * 180 / pi"

text \<open>The local variable \<^verbatim>\<open>diff\<close> of \<^verbatim>\<open>_get_wind_bias\<close> after the wrap.\<close>

definition wind_diff :: "sim \<Rightarrow> int \<Rightarrow> int \<Rightarrow> real" where
  "wind_diff s dy dx =
     (let diff = \<bar>wind_angle dy dx - wind_dir s\<bar>
      in if 180 < diff then 360 - diff else diff)"

definition get_wind_bias :: "sim \<Rightarrow> int \<Rightarrow> int \<Rightarrow> real" where
  "get_wind_bias s dy dx =
     (if wind_str s = 0 then 1
      else max 0.1 (1 + wind_str s * cos (radians (wind_diff s dy dx))))"

text \<open>
  The specification's shortest angular distance between two bearings in degrees: the
  difference reduced into \<^verbatim>\<open>[0, 360)\<close>, then folded into \<^verbatim>\<open>[0, 180]\<close>.
\<close>

definition spec_angular_distance :: "real \<Rightarrow> real \<Rightarrow> real" where
  "spec_angular_distance a b =
     (let r = \<bar>a - b\<bar> - 360 * of_int \<lfloor>\<bar>a - b\<bar> / 360\<rfloor>
      in min r (360 - r))"

subsection \<open>The simulation step\<close>

definition offsets :: "(int \<times> int) list" where
  "offsets = [(-1, 0), (1, 0), (0, -1), (0, 1), (-1, -1), (-1, 1), (1, -1), (1, 1)]"

text \<open>
  One pass of the inner loop body of \<^verbatim>\<open>_simulate_step\<close>, for the burning cell \<open>b\<close> and
  the offset \<open>d\<close>.  The loop state is the buffer \<^verbatim>\<open>new\<close> and the number \<open>n\<close> of calls of
  \<^verbatim>\<open>np.random.random()\<close> made so far; the \<open>n\<close>-th call returns \<open>rng n\<close>.  The test
  reads \<^verbatim>\<open>self.grid\<close>, the grid of the previous step.
\<close>

definition try_ignite ::
  "nat \<Rightarrow> nat \<Rightarrow> (nat \<Rightarrow> real) \<Rightarrow> sim \<Rightarrow> nat \<times> nat \<Rightarrow> int \<times> int \<Rightarrow> grid \<times> nat \<Rightarrow> grid \<times> nat" where
  "try_ignite H W rng s b d st =
     (let ny = int (fst b) + fst d; nx = int (snd b) + snd d
      in if 0 \<le> ny \<and> ny < int H \<and> 0 \<le> nx \<and> nx < int W
            \<and> cell_at (grid s) (nat ny) (nat nx) = TREE
         then let prob = fire_prob s * get_wind_bias s (fst d) (snd d) * (1 - moisture s)
              in if rng (snd st) < prob
                 then (set_cell (fst st) (nat ny) (nat nx) BURNING, snd st + 1)
                 else (fst st, snd st + 1)
         else st)"

definition spread_from ::
  "nat \<Rightarrow> nat \<Rightarrow> (nat \<Rightarrow> real) \<Rightarrow> sim \<Rightarrow> nat \<times> nat \<Rightarrow> grid \<times> nat \<Rightarrow> grid \<times> nat" where
  "spread_from H W rng s b st = fold (try_ignite H W rng s b) offsets st"

definition mark_burnt :: "(nat \<times> nat) list \<Rightarrow> grid \<Rightarrow> grid" where
  "mark_burnt ps g = fold (\<lambda>p new. set_cell new (fst p) (snd p) BURNT) ps g"

definition simulate_step :: "nat \<Rightarrow> nat \<Rightarrow> (nat \<Rightarrow> real) \<Rightarrow> sim \<Rightarrow> sim" where
  "simulate_step H W rng s =
     (let burning = argwhere (grid s) BURNING;
          new = mark_burnt burning (grid s);
          new' = fst (fold (spread_from H W rng s) burning (new, 0));
          s' = s\<lparr>grid := new'\<rparr>
      in if \<not> any_cell (grid s') BURNING then s'\<lparr>running := False\<rparr> else s')"

text \<open>
  The trials of a step, from the previous grid alone: the pairs of a burning cell and an
  offset whose target is inside the grid and holds a tree, in the order of the loops.
  The \<open>k\<close>-th trial is decided by the \<open>k\<close>-th draw.
\<close>

definition target :: "(nat \<times> nat) \<times> (int \<times> int) \<Rightarrow> nat \<times> nat" where
  "target t = (nat (int (fst (fst t)) + fst (snd t)), nat (int (snd (fst t)) + snd (snd t)))"

definition hits :: "nat \<Rightarrow> nat \<Rightarrow> grid \<Rightarrow> (nat \<times> nat) \<times> (int \<times> int) \<Rightarrow> bool" where
  "hits H W g t =
     (0 \<le> int (fst (fst t)) + fst (snd t) \<and> int (fst (fst t)) + fst (snd t) < int H
      \<and> 0 \<le> int (snd (fst t)) + snd (snd t) \<and> int (snd (fst t)) + snd (snd t) < int W
      \<and> cell_at g (fst (target t)) (snd (target t)) = TREE)"

definition trials :: "nat \<Rightarrow> nat \<Rightarrow> grid \<Rightarrow> ((nat \<times> nat) \<times> (int \<times> int)) list" where
  "trials H W g =
     concat (map (\<lambda>b. filter (hits H W g) (map (\<lambda>d. (b, d)) offsets)) (argwhere g BURNING))"

definition trial_prob :: "sim \<Rightarrow> (nat \<times> nat) \<times> (int \<times> int) \<Rightarrow> real" where
  "trial_prob s t = fire_prob s * get_wind_bias s (fst (snd t)) (snd (snd t)) * (1 - moisture s)"

definition ignites :: "nat \<Rightarrow> nat \<Rightarrow> (nat \<Rightarrow> real) \<Rightarrow> sim \<Rightarrow> nat \<Rightarrow> nat \<Rightarrow> bool" where
  "ignites H W rng s y x =
     list_ex (\<lambda>k. target (trials H W (grid s) ! k) = (y, x)
                  \<and> rng k < trial_prob s (trials H W (grid s) ! k))
             [0..<length (trials H W (grid s))]"

text \<open>
  The specification's transition: the state machine of one cell, and the synchronous
  step that applies it to every cell of the previous grid.
\<close>

definition next_cell :: "nat \<Rightarrow> nat \<Rightarrow> (nat \<Rightarrow> real) \<Rightarrow> sim \<Rightarrow> nat \<Rightarrow> nat \<Rightarrow> cell" where
  "next_cell H W rng s y x =
     (case cell_at (grid s) y x of
        EMPTY \<Rightarrow> EMPTY
      | TREE \<Rightarrow> (if ignites H W rng s y x then BURNING else TREE)
      | BURNING \<Rightarrow> BURNT
      | BURNT \<Rightarrow> BURNT)"

definition sync_step :: "nat \<Rightarrow> nat \<Rightarrow> (nat \<Rightarrow> real) \<Rightarrow> sim \<Rightarrow> grid" where
  "sync_step H W rng s = map (\<lambda>y. map (\<lambda>x. next_cell H W rng s y x) [0..<W]) [0..<H]"

text \<open>
  Two notions used to state the results: a position inside the array, and the effect of
  one trial on the loop state (the body of \<open>try_ignite\<close> once its test has passed).
\<close>

definition in_grid :: "grid \<Rightarrow> nat \<Rightarrow> nat \<Rightarrow> bool" where
  "in_grid g y x = (y < length g \<and> x < length (g ! y))"

definition trial_apply ::
  "(nat \<Rightarrow> real) \<Rightarrow> sim \<Rightarrow> (nat \<times> nat) \<times> (int \<times> int) \<Rightarrow> grid \<times> nat \<Rightarrow> grid \<times> nat" where
  "trial_apply rng s t st =
     (if rng (snd st) < trial_prob s t
      then set_cell (fst st) (fst (target t)) (snd (target t)) BURNING
      else fst st, snd st + 1)"

subsection \<open>Initialisation, ignition and the other actions\<close>

text \<open>
  \<^verbatim>\<open>np.random.choice([EMPTY, TREE], shape, p=[1 - d, d])\<close> draws one uniform number of
  \<^verbatim>\<open>[0, 1)\<close> per cell and looks it up in the cumulative distribution \<^verbatim>\<open>[1 - d, 1]\<close>; it
  raises \<^verbatim>\<open>ValueError\<close> when a probability is negative.  The draw of the cell \<open>(y, x)\<close>
  is \<open>rng (y * W + x)\<close>.
\<close>

definition choice_cell :: "real \<Rightarrow> real \<Rightarrow> cell" where
  "choice_cell d u = (if u < 1 - d then EMPTY else TREE)"

definition random_forest :: "nat \<Rightarrow> nat \<Rightarrow> real \<Rightarrow> (nat \<Rightarrow> real) \<Rightarrow> grid" where
  "random_forest H W d rng =
     map (\<lambda>y. map (\<lambda>x. choice_cell d (rng (y * W + x))) [0..<W]) [0..<H]"

definition init_forest :: "nat \<Rightarrow> nat \<Rightarrow> (nat \<Rightarrow> real) \<Rightarrow> sim \<Rightarrow> error + sim" where
  "init_forest H W rng s =
     (if 1 - tree_density s < 0 \<or> tree_density s < 0 then Inl ValueError
      else Inr (s\<lparr>grid := random_forest H W (tree_density s) rng\<rparr>))"

text \<open>
  \<^verbatim>\<open>np.random.choice(n, k, replace=False)\<close> returns \<open>k\<close> distinct indices below \<open>n\<close>;
  \<open>_start_fire\<close> takes that array as the argument \<open>picks\<close>.
\<close>

definition valid_choice :: "nat \<Rightarrow> nat \<Rightarrow> nat list \<Rightarrow> bool" where
  "valid_choice n k picks = (length picks = k \<and> distinct picks \<and> list_all (\<lambda>i. i < n) picks)"

definition start_fire :: "nat list \<Rightarrow> sim \<Rightarrow> sim" where
  "start_fire picks s =
     (let trees = argwhere (grid s) TREE
      in if 0 < length trees
         then s\<lparr>grid := fold (\<lambda>i g. set_cell g (fst (trees ! i)) (snd (trees ! i)) BURNING)
                            picks (grid s),
                running := True\<rparr>
         else s)"

text \<open>The cells that \<open>_start_fire\<close> sets on fire: the rows \<^verbatim>\<open>trees[picks]\<close>.\<close>

definition ignited :: "nat list \<Rightarrow> sim \<Rightarrow> (nat \<times> nat) list" where
  "ignited picks s = map (\<lambda>i. argwhere (grid s) TREE ! i) picks"

definition reset_forest :: "nat \<Rightarrow> nat \<Rightarrow> (nat \<Rightarrow> real) \<Rightarrow> sim \<Rightarrow> error + sim" where
  "reset_forest H W rng s =
     (case init_forest H W rng (s\<lparr>tree_density := slider0 (sliders s)\<rparr>) of
        Inl e \<Rightarrow> Inl e
      | Inr s' \<Rightarrow> Inr (s'\<lparr>running := False, paused := False\<rparr>))"

definition toggle_pause :: "sim \<Rightarrow> sim" where
  "toggle_pause s = s\<lparr>paused := \<not> paused s\<rparr>"

definition step_forward :: "nat \<Rightarrow> nat \<Rightarrow> (nat \<Rightarrow> real) \<Rightarrow> sim \<Rightarrow> sim" where
  "step_forward H W rng s = simulate_step H W rng s"

text \<open>\<^verbatim>\<open>np.random.uniform(lo, hi)\<close> from a uniform draw \<open>u\<close> of \<^verbatim>\<open>[0, 1)\<close>.\<close>

definition uniform :: "real \<Rightarrow> real \<Rightarrow> real \<Rightarrow> real" where
  "uniform lo hi u = lo + (hi - lo) * u"

definition randomize :: "nat \<Rightarrow> nat \<Rightarrow> (nat \<Rightarrow> real) \<Rightarrow> (nat \<Rightarrow> real) \<Rightarrow> sim \<Rightarrow> error + sim" where
  "randomize H W us rng s =
     (let s1 = s\<lparr>sliders := (sliders s)\<lparr>slider0 := uniform 0.3 0.8 (us 0)\<rparr>\<rparr>;
          s2 = s1\<lparr>sliders := (sliders s1)\<lparr>slider1 := uniform 0 360 (us 1)\<rparr>\<rparr>;
          s3 = s2\<lparr>sliders := (sliders s2)\<lparr>slider2 := uniform 0.2 0.9 (us 2)\<rparr>\<rparr>;
          s4 = s3\<lparr>sliders := (sliders s3)\<lparr>slider3 := uniform 0 0.4 (us 3)\<rparr>\<rparr>;
          s5 = s4\<lparr>sliders := (sliders s4)\<lparr>slider4 := uniform 10 45 (us 4)\<rparr>\<rparr>
      in reset_forest H W rng (sync_params s5))"

text \<open>
  The grid click of \<^verbatim>\<open>_handle_events\<close>, at the cell column \<open>gx\<close> and row \<open>gy\<close>, and a
  slider drag (\<^verbatim>\<open>Slider.update_val\<close>), which clamps the raw value \<open>v\<close> into the range of
  the \<open>k\<close>-th slider.
\<close>

definition click_ignite :: "nat \<Rightarrow> nat \<Rightarrow> int \<Rightarrow> int \<Rightarrow> sim \<Rightarrow> sim" where
  "click_ignite H W gx gy s =
     (if 0 \<le> gx \<and> gx < int W \<and> 0 \<le> gy \<and> gy < int H
         \<and> cell_at (grid s) (nat gy) (nat gx) = TREE
      then s\<lparr>grid := set_cell (grid s) (nat gy) (nat gx) BURNING, running := True\<rparr>
      else s)"

definition slider_drag :: "nat \<Rightarrow> real \<Rightarrow> sim \<Rightarrow> sim" where
  "slider_drag k v s =
     (if k = 0 then s\<lparr>sliders := (sliders s)\<lparr>slider0 := clamp v 0.1 0.9\<rparr>\<rparr>
      else if k = 1 then s\<lparr>sliders := (sliders s)\<lparr>slider1 := clamp v 0 360\<rparr>\<rparr>
      else if k = 2 then s\<lparr>sliders := (sliders s)\<lparr>slider2 := clamp v 0 1\<rparr>\<rparr>
      else if k = 3 then s\<lparr>sliders := (sliders s)\<lparr>slider3 := clamp v 0 0.5\<rparr>\<rparr>
      else if k = 4 then s\<lparr>sliders := (sliders s)\<lparr>slider4 := clamp v 0 50\<rparr>\<rparr>
      else s)"

text \<open>
  The states of a run: the constructor's state, closed under every action of the event
  handler and of the main loop, with arbitrary random draws.
\<close>

inductive reachable :: "nat \<Rightarrow> nat \<Rightarrow> sim \<Rightarrow> bool" for H W where
  r_init: "init_forest H W rng (new_sim H W) = Inr s \<Longrightarrow> reachable H W s"
| r_start_fire:
    "reachable H W s \<Longrightarrow>
     valid_choice (length (argwhere (grid s) TREE)) (min 3 (length (argwhere (grid s) TREE))) picks \<Longrightarrow>
     reachable H W (start_fire picks s)"
| r_reset: "reachable H W s \<Longrightarrow> reset_forest H W rng s = Inr s' \<Longrightarrow> reachable H W s'"
| r_toggle: "reachable H W s \<Longrightarrow> reachable H W (toggle_pause s)"
| r_step: "reachable H W s \<Longrightarrow> reachable H W (simulate_step H W rng s)"
| r_randomize:
    "reachable H W s \<Longrightarrow> randomize H W us rng s = Inr s' \<Longrightarrow> reachable H W s'"
| r_sync: "reachable H W s \<Longrightarrow> reachable H W (sync_params s)"
| r_click: "reachable H W s \<Longrightarrow> reachable H W (click_ignite H W gx gy s)"
| r_drag: "reachable H W s \<Longrightarrow> reachable H W (slider_drag k v s)"

text \<open>The invariant behind the running flag: while a cell burns, the flag is on.\<close>

definition fire_inv :: "sim \<Rightarrow> bool" where
  "fire_inv s = (any_cell (grid s) BURNING \<longrightarrow> running s)"

section \<open>Parameter model: theorems\<close>

lemma clamp_spec_clamp: "lo \<le> hi \<Longrightarrow> clamp v lo hi = spec_clamp v lo hi"
  by (auto simp: clamp_def spec_clamp_def)

lemma clamp_mono: "a \<le> b \<Longrightarrow> clamp a lo hi \<le> clamp b lo hi"
  by (auto simp: clamp_def)

lemma clamp_bounds: "lo \<le> hi \<Longrightarrow> lo \<le> clamp v lo hi \<and> clamp v lo hi \<le> hi"
  by (auto simp: clamp_def)

lemma fire_prob_sync:
  "fire_prob (sync_params s) =
     clamp (0.15 + 0.5 * clamp ((slider4 (sliders s) - 10) / 40) 0 1
            + 0.2 * slider2 (sliders s) - 0.4 * slider3 (sliders s)) 0.05 0.95"
  by (simp add: sync_params_def Let_def)

text \<open>
  C4.  The fire probability that \<^verbatim>\<open>_sync_params\<close> stores is the specification's
  \<^verbatim>\<open>derive_fire_probability\<close> of the five current parameter values:
  \<^verbatim>\<open>temp_factor = clamp((temperature - 10) / 40, 0, 1)\<close> and
  \<^verbatim>\<open>fire_prob = clamp(0.15 + 0.5 temp_factor + 0.2 wind_str - 0.4 moisture, 0.05, 0.95)\<close>.
  It is a pure function of them: nothing else of the state enters the result, the five
  parameters are copied from the sliders, and the grid and the flags are left alone.
\<close>

theorem C4_derive_fire_probability:
  "fire_prob (sync_params (with_params td wd ws m t s)) = derive_fire_probability td wd ws m t
   \<and> tree_density (sync_params (with_params td wd ws m t s)) = td
   \<and> wind_dir (sync_params (with_params td wd ws m t s)) = wd
   \<and> wind_str (sync_params (with_params td wd ws m t s)) = ws
   \<and> moisture (sync_params (with_params td wd ws m t s)) = m
   \<and> temperature (sync_params (with_params td wd ws m t s)) = t
   \<and> grid (sync_params (with_params td wd ws m t s)) = grid s
   \<and> running (sync_params (with_params td wd ws m t s)) = running s
   \<and> paused (sync_params (with_params td wd ws m t s)) = paused s"
proof -
  have "fire_prob (sync_params (with_params td wd ws m t s)) =
          clamp (0.15 + 0.5 * clamp ((t - 10) / 40) 0 1 + 0.2 * ws - 0.4 * m) 0.05 0.95"
    by (simp add: fire_prob_sync with_params_def)
  also have "\<dots> = derive_fire_probability td wd ws m t"
    by (simp add: derive_fire_probability_def spec_temp_factor_def clamp_spec_clamp)
  finally show ?thesis
    by (simp add: sync_params_def with_params_def Let_def)
qed

text \<open>
  C5.  The derived fire probability is non-decreasing in the temperature and in the wind
  strength, non-increasing in the moisture (the other inputs fixed), and always lies in
  \<^verbatim>\<open>[0.05, 0.95]\<close>, for all parameter values.
\<close>

theorem C5_fire_prob_monotone_bounded:
  "(t1 \<le> t2 \<longrightarrow>
      fire_prob (sync_params (with_params td wd ws m t1 s))
        \<le> fire_prob (sync_params (with_params td wd ws m t2 s)))
   \<and> (ws1 \<le> ws2 \<longrightarrow>
      fire_prob (sync_params (with_params td wd ws1 m t s))
        \<le> fire_prob (sync_params (with_params td wd ws2 m t s)))
   \<and> (m1 \<le> m2 \<longrightarrow>
      fire_prob (sync_params (with_params td wd ws m2 t s))
        \<le> fire_prob (sync_params (with_params td wd ws m1 t s)))
   \<and> 0.05 \<le> fire_prob (sync_params s) \<and> fire_prob (sync_params s) \<le> 0.95"
proof -
  have temp: "t1 \<le> t2 \<Longrightarrow> clamp ((t1 - 10) / 40) 0 1 \<le> clamp ((t2 - 10) / 40) 0 1"
    by (rule clamp_mono) (simp add: divide_right_mono)
  have a: "t1 \<le> t2 \<longrightarrow>
      fire_prob (sync_params (with_params td wd ws m t1 s))
        \<le> fire_prob (sync_params (with_params td wd ws m t2 s))"
    using temp by (auto simp: fire_prob_sync with_params_def intro!: clamp_mono)
  have b: "ws1 \<le> ws2 \<longrightarrow>
      fire_prob (sync_params (with_params td wd ws1 m t s))
        \<le> fire_prob (sync_params (with_params td wd ws2 m t s))"
    by (auto simp: fire_prob_sync with_params_def intro!: clamp_mono)
  have c: "m1 \<le> m2 \<longrightarrow>
      fire_prob (sync_params (with_params td wd ws m2 t s))
        \<le> fire_prob (sync_params (with_params td wd ws m1 t s))"
    by (auto simp: fire_prob_sync with_params_def intro!: clamp_mono)
  have d: "0.05 \<le> fire_prob (sync_params s) \<and> fire_prob (sync_params s) \<le> 0.95"
    unfolding fire_prob_sync by (rule clamp_bounds) simp
  from a b c d show ?thesis by blast
qed

theorem C5_fire_prob_monotone_bounded_witness:
  "(20::real) \<le> 30 \<and> (1/5::real) \<le> 1/2 \<and> (1/10::real) \<le> 3/10
   \<and> fire_prob (sync_params (with_params (3/5) 0 (1/2) (1/5) 20 (new_sim 2 3)))
        \<le> fire_prob (sync_params (with_params (3/5) 0 (1/2) (1/5) 30 (new_sim 2 3)))
   \<and> fire_prob (sync_params (with_params (3/5) 0 (1/5) (1/5) 25 (new_sim 2 3)))
        \<le> fire_prob (sync_params (with_params (3/5) 0 (1/2) (1/5) 25 (new_sim 2 3)))
   \<and> fire_prob (sync_params (with_params (3/5) 0 (1/2) (3/10) 25 (new_sim 2 3)))
        \<le> fire_prob (sync_params (with_params (3/5) 0 (1/2) (1/10) 25 (new_sim 2 3)))"
  using C5_fire_prob_monotone_bounded [where ?t1.0 = 20 and ?t2.0 = 30 and td = "3/5" and wd = 0
      and ws = "1/2" and m = "1/5" and s = "new_sim 2 3" and ?ws1.0 = "1/5" and ?ws2.0 = "1/2"
      and t = 25 and ?m1.0 = "1/10" and ?m2.0 = "3/10"]
  by simp

section \<open>Fire grid engine: the step\<close>

lemma wf_grid_nth: "wf_grid H W g \<Longrightarrow> y < H \<Longrightarrow> length (g ! y) = W"
  by (simp add: wf_grid_def list_all_length)

lemma wf_grid_in_grid: "wf_grid H W g \<Longrightarrow> in_grid g y x = (y < H \<and> x < W)"
  by (auto simp: in_grid_def wf_grid_def list_all_length)

lemma length_set_cell [simp]: "length (set_cell g y x c) = length g"
  by (simp add: set_cell_def)

lemma length_row_set_cell [simp]: "length (set_cell g y x c ! y') = length (g ! y')"
  by (cases "y < length g"; cases "y = y'") (simp_all add: set_cell_def list_update_beyond)

lemma in_grid_set_cell [simp]: "in_grid (set_cell g y x c) y' x' = in_grid g y' x'"
  by (simp add: in_grid_def)

lemma wf_grid_set_cell: "wf_grid H W g \<Longrightarrow> wf_grid H W (set_cell g y x c)"
  by (simp add: wf_grid_def list_all_length)

lemma cell_at_set_cell:
  "cell_at (set_cell g y x c) y' x' =
     (if y = y' \<and> x = x' \<and> in_grid g y x then c else cell_at g y' x')"
  by (cases "y < length g"; cases "y = y'"; cases "x = x'"; cases "x < length (g ! y)")
     (simp_all add: cell_at_def set_cell_def in_grid_def list_update_beyond)

lemma grid_eqI:
  assumes "length g = length g'"
    and "\<And>y. y < length g \<Longrightarrow> length (g ! y) = length (g' ! y)"
    and "\<And>y x. in_grid g y x \<Longrightarrow> cell_at g y x = cell_at g' y x"
  shows "g = g'"
  using assms by (auto simp: in_grid_def cell_at_def intro!: nth_equalityI)

lemma set_argwhere:
  "(p \<in> set (argwhere g c)) = (in_grid g (fst p) (snd p) \<and> cell_at g (fst p) (snd p) = c)"
  by (cases p) (auto simp: argwhere_def in_grid_def cell_at_def)

lemma distinct_concat_map_upt:
  "(\<And>i. i < n \<Longrightarrow> distinct (f i)) \<Longrightarrow> (\<And>i p. i < n \<Longrightarrow> p \<in> set (f i) \<Longrightarrow> fst p = i)
   \<Longrightarrow> distinct (concat (map f [0..<n]))"
proof (induction n)
  case 0
  show ?case by simp
next
  case (Suc n)
  have "distinct (concat (map f [0..<n]))"
    by (rule Suc.IH) (simp_all add: Suc.prems)
  moreover have "distinct (f n)"
    by (simp add: Suc.prems)
  moreover have "set (concat (map f [0..<n])) \<inter> set (f n) = {}"
  proof (rule ccontr)
    assume "set (concat (map f [0..<n])) \<inter> set (f n) \<noteq> {}"
    then obtain p i where "p \<in> set (f n)" "i < n" "p \<in> set (f i)"
      by auto
    then have "fst p = n" "fst p = i" "i < n"
      using Suc.prems(2) [of n p] Suc.prems(2) [of i p] by simp_all
    then show False by simp
  qed
  ultimately show ?case by simp
qed

lemma distinct_argwhere: "distinct (argwhere g c)"
  unfolding argwhere_def
  by (rule distinct_concat_map_upt) (auto simp: distinct_map inj_on_def)

lemma any_cell_iff: "any_cell g c = (\<exists>y x. in_grid g y x \<and> cell_at g y x = c)"
proof
  assume "any_cell g c"
  then obtain r where r: "r \<in> set g" "c \<in> set r"
    by (auto simp: any_cell_def list_ex_iff)
  then obtain y x where "y < length g" "g ! y = r" "x < length r" "r ! x = c"
    by (auto simp: in_set_conv_nth)
  then show "\<exists>y x. in_grid g y x \<and> cell_at g y x = c"
    by (auto simp: in_grid_def cell_at_def)
next
  assume "\<exists>y x. in_grid g y x \<and> cell_at g y x = c"
  then obtain y x where "y < length g" "x < length (g ! y)" "g ! y ! x = c"
    by (auto simp: in_grid_def cell_at_def)
  then have "g ! y \<in> set g" "c \<in> set (g ! y)"
    by (auto simp: in_set_conv_nth)
  then show "any_cell g c"
    by (auto simp: any_cell_def list_ex_iff)
qed


lemma in_grid_mark_burnt [simp]: "in_grid (mark_burnt ps g) y x = in_grid g y x"
  unfolding mark_burnt_def by (induction ps arbitrary: g) simp_all

lemma length_mark_burnt [simp]: "length (mark_burnt ps g) = length g"
  unfolding mark_burnt_def by (induction ps arbitrary: g) simp_all

lemma length_row_mark_burnt [simp]: "length (mark_burnt ps g ! y) = length (g ! y)"
  unfolding mark_burnt_def by (induction ps arbitrary: g) simp_all

lemma cell_at_mark_burnt:
  "cell_at (mark_burnt ps g) y x =
     (if (y, x) \<in> set ps \<and> in_grid g y x then BURNT else cell_at g y x)"
proof (induction ps arbitrary: g)
  case Nil
  show ?case by (simp add: mark_burnt_def)
next
  case (Cons p ps)
  have "mark_burnt (p # ps) g = mark_burnt ps (set_cell g (fst p) (snd p) BURNT)"
    by (simp add: mark_burnt_def)
  then show ?case
    by (cases p) (auto simp: Cons.IH cell_at_set_cell)
qed

lemma try_ignite_trial:
  "try_ignite H W rng s b d st = fold (trial_apply rng s) (filter (hits H W (grid s)) [(b, d)]) st"
  by (cases st) (simp add: try_ignite_def trial_apply_def hits_def target_def trial_prob_def Let_def)

lemma fold_filter_singletons:
  "fold (\<lambda>d. fold f (filter P [h d])) ds st = fold f (filter P (map h ds)) st"
  by (induction ds arbitrary: st) simp_all

lemma spread_from_trials:
  "spread_from H W rng s b st =
     fold (trial_apply rng s) (filter (hits H W (grid s)) (map (\<lambda>d. (b, d)) offsets)) st"
proof -
  have "spread_from H W rng s b st =
          fold (\<lambda>d. fold (trial_apply rng s) (filter (hits H W (grid s)) [(b, d)])) offsets st"
    unfolding spread_from_def by (rule arg_cong [where f = "\<lambda>f. fold f offsets st"]) (rule ext, rule ext, rule try_ignite_trial)
  then show ?thesis by (simp only: fold_filter_singletons)
qed

lemma fold_spread_trials:
  "fold (spread_from H W rng s) bs st =
     fold (trial_apply rng s)
       (concat (map (\<lambda>b. filter (hits H W (grid s)) (map (\<lambda>d. (b, d)) offsets)) bs)) st"
  by (induction bs arbitrary: st) (simp_all add: spread_from_trials)

lemma snd_fold_trial_apply: "snd (fold (trial_apply rng s) ts st) = snd st + length ts"
  by (induction ts arbitrary: st) (simp_all add: trial_apply_def)

lemma in_grid_fold_trial_apply [simp]:
  "in_grid (fst (fold (trial_apply rng s) ts st)) y x = in_grid (fst st) y x"
  by (induction ts arbitrary: st) (simp_all add: trial_apply_def)

lemma length_fold_trial_apply [simp]:
  "length (fst (fold (trial_apply rng s) ts st)) = length (fst st)"
  by (induction ts arbitrary: st) (simp_all add: trial_apply_def)

lemma length_row_fold_trial_apply [simp]:
  "length (fst (fold (trial_apply rng s) ts st) ! y) = length (fst st ! y)"
  by (induction ts arbitrary: st) (simp_all add: trial_apply_def)

lemma ex_less_Suc_shift:
  "(\<exists>k<Suc n. P k) = (P 0 \<or> (\<exists>k<n. P (Suc k)))"
  by (metis less_Suc_eq_0_disj Suc_less_eq)

lemma cell_at_fold_trial_apply:
  "cell_at (fst (fold (trial_apply rng s) ts st)) y x =
     (if in_grid (fst st) y x
         \<and> (\<exists>k<length ts. target (ts ! k) = (y, x) \<and> rng (snd st + k) < trial_prob s (ts ! k))
      then BURNING else cell_at (fst st) y x)"
proof (induction ts arbitrary: st)
  case Nil
  show ?case by simp
next
  case (Cons t ts)
  let ?st = "trial_apply rng s t st"
  have step: "cell_at (fst ?st) y x =
      (if in_grid (fst st) y x \<and> target t = (y, x) \<and> rng (snd st) < trial_prob s t
       then BURNING else cell_at (fst st) y x)"
    by (cases "target t") (auto simp: trial_apply_def cell_at_set_cell)
  have grid: "in_grid (fst ?st) y x = in_grid (fst st) y x"
    by (simp add: trial_apply_def)
  have cnt: "snd ?st = Suc (snd st)"
    by (simp add: trial_apply_def)
  have unfold: "cell_at (fst (fold (trial_apply rng s) (t # ts) st)) y x =
      (if in_grid (fst st) y x
         \<and> (\<exists>k<length ts. target (ts ! k) = (y, x) \<and> rng (Suc (snd st) + k) < trial_prob s (ts ! k))
      then BURNING else cell_at (fst ?st) y x)"
    by (simp only: fold_simps Cons.IH grid cnt)
  have ex: "(\<exists>k<length (t # ts). target ((t # ts) ! k) = (y, x)
                \<and> rng (snd st + k) < trial_prob s ((t # ts) ! k)) =
            (target t = (y, x) \<and> rng (snd st) < trial_prob s t
             \<or> (\<exists>k<length ts. target (ts ! k) = (y, x)
                    \<and> rng (Suc (snd st) + k) < trial_prob s (ts ! k)))"
    by (simp add: ex_less_Suc_shift)
  show ?case
    unfolding unfold ex step by auto
qed


lemma grid_simulate_step:
  "grid (simulate_step H W rng s) =
     fst (fold (trial_apply rng s) (trials H W (grid s))
            (mark_burnt (argwhere (grid s) BURNING) (grid s), 0))"
  by (simp add: simulate_step_def Let_def fold_spread_trials trials_def)

lemma set_trials:
  "(t \<in> set (trials H W g)) =
     (fst t \<in> set (argwhere g BURNING) \<and> snd t \<in> set offsets \<and> hits H W g t)"
  by (cases t) (auto simp: trials_def)

lemma in_grid_simulate_step [simp]:
  "in_grid (grid (simulate_step H W rng s)) y x = in_grid (grid s) y x"
  by (simp add: grid_simulate_step)

lemma wf_grid_simulate_step:
  "wf_grid H W (grid s) \<Longrightarrow> wf_grid H W (grid (simulate_step H W rng s))"
  by (simp add: grid_simulate_step wf_grid_def list_all_length)

lemma ignites_iff:
  "ignites H W rng s y x =
     (\<exists>k<length (trials H W (grid s)). target (trials H W (grid s) ! k) = (y, x)
          \<and> rng k < trial_prob s (trials H W (grid s) ! k))"
  by (auto simp: ignites_def list_ex_iff)

lemma trial_target_tree:
  "k < length (trials H W g) \<Longrightarrow> target (trials H W g ! k) = (y, x) \<Longrightarrow> cell_at g y x = TREE"
proof -
  assume "k < length (trials H W g)" and tg: "target (trials H W g ! k) = (y, x)"
  then have "trials H W g ! k \<in> set (trials H W g)" by simp
  then have "hits H W g (trials H W g ! k)" by (simp add: set_trials)
  then show ?thesis using tg by (simp add: hits_def)
qed

lemma step_cell:
  assumes "in_grid (grid s) y x"
  shows "cell_at (grid (simulate_step H W rng s)) y x = next_cell H W rng s y x"
proof -
  let ?g = "grid s"
  have new: "cell_at (grid (simulate_step H W rng s)) y x =
      (if ignites H W rng s y x then BURNING
       else if cell_at ?g y x = BURNING then BURNT else cell_at ?g y x)"
    using assms
    by (auto simp: grid_simulate_step cell_at_fold_trial_apply cell_at_mark_burnt
        ignites_iff set_argwhere)
  show ?thesis
  proof (cases "cell_at ?g y x = TREE")
    case True
    then show ?thesis by (simp add: new next_cell_def)
  next
    case False
    then have "\<not> ignites H W rng s y x"
      using trial_target_tree [of _ H W ?g y x] by (auto simp: ignites_iff)
    then show ?thesis
      using False by (cases "cell_at ?g y x") (simp_all add: new next_cell_def)
  qed
qed

lemma sync_step_refines:
  assumes "wf_grid H W (grid s)"
  shows "grid (simulate_step H W rng s) = sync_step H W rng s"
proof (rule grid_eqI)
  show "length (grid (simulate_step H W rng s)) = length (sync_step H W rng s)"
    using assms by (simp add: grid_simulate_step sync_step_def wf_grid_def)
next
  fix y assume "y < length (grid (simulate_step H W rng s))"
  then have "y < H" using assms by (simp add: grid_simulate_step wf_grid_def)
  then show "length (grid (simulate_step H W rng s) ! y) = length (sync_step H W rng s ! y)"
    using assms by (simp add: grid_simulate_step sync_step_def wf_grid_nth)
next
  fix y x assume "in_grid (grid (simulate_step H W rng s)) y x"
  then have in_g: "in_grid (grid s) y x" by simp
  then have "y < H" "x < W" using assms by (simp_all add: wf_grid_in_grid)
  then have "cell_at (sync_step H W rng s) y x = next_cell H W rng s y x"
    by (simp add: sync_step_def cell_at_def)
  then show "cell_at (grid (simulate_step H W rng s)) y x = cell_at (sync_step H W rng s) y x"
    by (simp add: step_cell [OF in_g])
qed

lemma distinct_concat_map_tagged:
  "distinct bs \<Longrightarrow> (\<And>b. b \<in> set bs \<Longrightarrow> distinct (f b)) \<Longrightarrow>
   (\<And>b p. b \<in> set bs \<Longrightarrow> p \<in> set (f b) \<Longrightarrow> fst p = b) \<Longrightarrow>
   distinct (concat (map f bs))"
proof (induction bs)
  case Nil
  show ?case by simp
next
  case (Cons b bs)
  have "distinct (concat (map f bs))"
    using Cons.prems by (intro Cons.IH) simp_all
  moreover have "distinct (f b)"
    using Cons.prems by simp
  moreover have "set (f b) \<inter> set (concat (map f bs)) = {}"
  proof (rule ccontr)
    assume "set (f b) \<inter> set (concat (map f bs)) \<noteq> {}"
    then obtain p c where "p \<in> set (f b)" "c \<in> set bs" "p \<in> set (f c)"
      by auto
    then have "fst p = b" "fst p = c" "c \<in> set bs"
      using Cons.prems(3) [of b p] Cons.prems(3) [of c p] by simp_all
    then show False using Cons.prems(1) by auto
  qed
  ultimately show ?case by simp
qed

lemma distinct_offsets: "distinct offsets"
  by (simp add: offsets_def)

lemma set_offsets: "(d \<in> set offsets) = (\<bar>fst d\<bar> \<le> 1 \<and> \<bar>snd d\<bar> \<le> 1 \<and> d \<noteq> (0, 0))"
proof
  assume "d \<in> set offsets"
  then show "\<bar>fst d\<bar> \<le> 1 \<and> \<bar>snd d\<bar> \<le> 1 \<and> d \<noteq> (0, 0)"
    unfolding offsets_def by (elim set_ConsD [elim_format] disjE) simp_all
next
  assume h: "\<bar>fst d\<bar> \<le> 1 \<and> \<bar>snd d\<bar> \<le> 1 \<and> d \<noteq> (0, 0)"
  obtain a b where d: "d = (a, b)" by (cases d)
  from h d have a: "a = -1 \<or> a = 0 \<or> a = 1" and b: "b = -1 \<or> b = 0 \<or> b = 1"
    by (simp_all, arith+)
  from h d have nz: "\<not> (a = 0 \<and> b = 0)" by simp
  from a b nz show "d \<in> set offsets"
    unfolding d offsets_def by (elim disjE) simp_all
qed


lemma distinct_trials: "distinct (trials H W g)"
  unfolding trials_def
proof (rule distinct_concat_map_tagged)
  show "distinct (argwhere g BURNING)" by (rule distinct_argwhere)
next
  fix b :: "nat \<times> nat"
  have "distinct (map (\<lambda>d. (b, d)) offsets)"
    by (simp add: distinct_map distinct_offsets inj_on_def)
  then show "distinct (filter (hits H W g) (map (\<lambda>d. (b, d)) offsets))"
    by (rule distinct_filter)
next
  fix b :: "nat \<times> nat" and p assume "p \<in> set (filter (hits H W g) (map (\<lambda>d. (b, d)) offsets))"
  then show "fst p = b" by auto
qed

lemma trial_neighbour:
  assumes "t \<in> set (trials H W g)" and "target t = (y, x)"
  shows "in_grid g (fst (fst t)) (snd (fst t)) \<and> cell_at g (fst (fst t)) (snd (fst t)) = BURNING
         \<and> snd t \<in> set offsets
         \<and> int (fst (fst t)) + fst (snd t) = int y \<and> int (snd (fst t)) + snd (snd t) = int x"
  using assms by (auto simp: set_trials set_argwhere hits_def target_def)

lemma neighbour_trial:
  assumes "in_grid g by bx" "cell_at g by bx = BURNING" "d \<in> set offsets"
    and "int by + fst d = int y" "int bx + snd d = int x"
    and "y < H" "x < W" "cell_at g y x = TREE"
  shows "((by, bx), d) \<in> set (trials H W g) \<and> target ((by, bx), d) = (y, x)"
  using assms by (simp add: set_trials set_argwhere hits_def target_def)

lemma upt_two: "[0..<2] = [0, Suc 0]"
  by (simp add: numeral_2_eq_2)

lemma demo_trials: "trials 2 2 [[BURNING, TREE], [EMPTY, BURNT]] = [((0, 0), (0, 1))]"
  by (simp add: trials_def argwhere_def offsets_def hits_def target_def cell_at_def upt_two)

lemma demo_step:
  "grid (simulate_step 2 2 (\<lambda>k. 0)
     ((new_sim 2 2)\<lparr>grid := [[BURNING, TREE], [EMPTY, BURNT]], wind_str := 0\<rparr>))
   = [[BURNT, BURNING], [EMPTY, BURNT]]"
  by (simp add: simulate_step_def new_sim_def argwhere_def mark_burnt_def set_cell_def
      spread_from_def offsets_def try_ignite_def cell_at_def get_wind_bias_def any_cell_def
      Let_def upt_two)

text \<open>
  C1.  One step applies the state machine to every cell of the grid: a cell that was
  \<^verbatim>\<open>BURNING\<close> is \<^verbatim>\<open>BURNT\<close> afterwards, whatever the draws; \<^verbatim>\<open>EMPTY\<close> and \<^verbatim>\<open>BURNT\<close> cells
  keep their state; a cell that is \<^verbatim>\<open>BURNT\<close> afterwards was \<^verbatim>\<open>BURNING\<close> or \<^verbatim>\<open>BURNT\<close>
  before, so none goes from \<^verbatim>\<open>TREE\<close> or \<^verbatim>\<open>EMPTY\<close> to \<^verbatim>\<open>BURNT\<close>.  A grid of \<^verbatim>\<open>EMPTY\<close>
  and \<^verbatim>\<open>BURNT\<close> cells only is left unchanged by the step.
\<close>

theorem C1_cell_state_machine:
  assumes "wf_grid H W (grid s)"
  shows "(\<forall>y<H. \<forall>x<W.
            (cell_at (grid s) y x = BURNING \<longrightarrow> cell_at (grid (simulate_step H W rng s)) y x = BURNT)
          \<and> (cell_at (grid s) y x = EMPTY \<longrightarrow> cell_at (grid (simulate_step H W rng s)) y x = EMPTY)
          \<and> (cell_at (grid s) y x = BURNT \<longrightarrow> cell_at (grid (simulate_step H W rng s)) y x = BURNT)
          \<and> (cell_at (grid (simulate_step H W rng s)) y x = BURNT \<longrightarrow>
               cell_at (grid s) y x = BURNING \<or> cell_at (grid s) y x = BURNT))
         \<and> ((\<forall>y<H. \<forall>x<W. cell_at (grid s) y x = EMPTY \<or> cell_at (grid s) y x = BURNT) \<longrightarrow>
               grid (simulate_step H W rng s) = grid s)"
proof -
  have cell: "cell_at (grid (simulate_step H W rng s)) y x = next_cell H W rng s y x"
    if "y < H" "x < W" for y x
    using that assms by (intro step_cell) (simp add: wf_grid_in_grid)
  have machine: "(cell_at (grid s) y x = BURNING \<longrightarrow> next_cell H W rng s y x = BURNT)
          \<and> (cell_at (grid s) y x = EMPTY \<longrightarrow> next_cell H W rng s y x = EMPTY)
          \<and> (cell_at (grid s) y x = BURNT \<longrightarrow> next_cell H W rng s y x = BURNT)
          \<and> (next_cell H W rng s y x = BURNT \<longrightarrow>
               cell_at (grid s) y x = BURNING \<or> cell_at (grid s) y x = BURNT)" for y x
    by (cases "cell_at (grid s) y x") (simp_all add: next_cell_def)
  have fixed: "grid (simulate_step H W rng s) = grid s"
    if all: "\<forall>y<H. \<forall>x<W. cell_at (grid s) y x = EMPTY \<or> cell_at (grid s) y x = BURNT"
  proof (rule grid_eqI)
    show "length (grid (simulate_step H W rng s)) = length (grid s)"
      by (simp add: grid_simulate_step)
  next
    fix y show "length (grid (simulate_step H W rng s) ! y) = length (grid s ! y)"
      by (simp add: grid_simulate_step)
  next
    fix y x assume "in_grid (grid (simulate_step H W rng s)) y x"
    then have b: "y < H" "x < W" using assms by (simp_all add: wf_grid_in_grid)
    then have "cell_at (grid s) y x = EMPTY \<or> cell_at (grid s) y x = BURNT"
      using all by simp
    then show "cell_at (grid (simulate_step H W rng s)) y x = cell_at (grid s) y x"
      using machine [of y x] by (auto simp: cell [OF b])
  qed
  show ?thesis
    using machine fixed by (simp add: cell)
qed


theorem C1_cell_state_machine_witness:
  "wf_grid 2 2 [[EMPTY, BURNT], [BURNT, EMPTY]]
   \<and> grid (simulate_step 2 2 (\<lambda>k. 0) ((new_sim 2 2)\<lparr>grid := [[EMPTY, BURNT], [BURNT, EMPTY]]\<rparr>))
       = [[EMPTY, BURNT], [BURNT, EMPTY]]
   \<and> wf_grid 2 2 [[BURNING, TREE], [EMPTY, BURNT]]
   \<and> cell_at (grid (simulate_step 2 2 (\<lambda>k. 0)
          ((new_sim 2 2)\<lparr>grid := [[BURNING, TREE], [EMPTY, BURNT]]\<rparr>))) 0 0 = BURNT"
proof -
  let ?g = "[[EMPTY, BURNT], [BURNT, EMPTY]]"
  let ?s = "(new_sim 2 2)\<lparr>grid := ?g\<rparr>"
  let ?t = "(new_sim 2 2)\<lparr>grid := [[BURNING, TREE], [EMPTY, BURNT]]\<rparr>"
  have wf: "wf_grid 2 2 (grid ?s)"
    by (simp add: wf_grid_def)
  have cells: "\<forall>y<2. \<forall>x<2. cell_at (grid ?s) y x = EMPTY \<or> cell_at (grid ?s) y x = BURNT"
    by (auto simp: cell_at_def less_2_cases_iff)
  have fixed: "grid (simulate_step 2 2 (\<lambda>k. 0) ?s) = ?g"
    using cells C1_cell_state_machine [OF wf, of "\<lambda>k. 0"] by simp
  have wf': "wf_grid 2 2 (grid ?t)"
    by (simp add: wf_grid_def)
  have b: "cell_at (grid ?t) 0 0 = BURNING"
    by (simp add: cell_at_def)
  have "\<forall>y<2. \<forall>x<2. cell_at (grid ?t) y x = BURNING \<longrightarrow>
          cell_at (grid (simulate_step 2 2 (\<lambda>k. 0) ?t)) y x = BURNT"
    using C1_cell_state_machine [OF wf', of "\<lambda>k. 0"] by blast
  then have burnt: "cell_at (grid (simulate_step 2 2 (\<lambda>k. 0) ?t)) 0 0 = BURNT"
    using b by simp
  from wf wf' fixed burnt show ?thesis by simp
qed

text \<open>
  C2.  For a \<^verbatim>\<open>TREE\<close> cell \<open>(y, x)\<close> of the previous grid: every \<^verbatim>\<open>BURNING\<close> cell \<open>b\<close>
  with an offset \<open>d\<close> leading to \<open>(y, x)\<close> contributes a trial, and these are all the
  trials aimed at the cell; the trials of a step are pairwise different, and the \<open>k\<close>-th
  is decided by its own draw \<open>rng k\<close> against
  \<^verbatim>\<open>fire_prob * wind_bias(dy, dx) * (1 - moisture)\<close>; the cell is \<^verbatim>\<open>BURNING\<close> afterwards
  exactly when one of its trials succeeds and is \<^verbatim>\<open>TREE\<close> otherwise; with no \<^verbatim>\<open>BURNING\<close>
  cell among its Moore neighbours it stays \<^verbatim>\<open>TREE\<close>.  The offsets tried are the eight
  of the Moore neighbourhood, each once.
\<close>

theorem C2_tree_ignition:
  assumes "wf_grid H W (grid s)" and "y < H" and "x < W" and "cell_at (grid s) y x = TREE"
  shows "(\<forall>b d. (in_grid (grid s) (fst b) (snd b) \<and> cell_at (grid s) (fst b) (snd b) = BURNING
                  \<and> d \<in> set offsets
                  \<and> int (fst b) + fst d = int y \<and> int (snd b) + snd d = int x)
               = ((b, d) \<in> set (trials H W (grid s)) \<and> target (b, d) = (y, x)))
         \<and> distinct (trials H W (grid s))
         \<and> (cell_at (grid (simulate_step H W rng s)) y x = BURNING)
             = (\<exists>k<length (trials H W (grid s)).
                   target (trials H W (grid s) ! k) = (y, x)
                   \<and> rng k < fire_prob s
                               * get_wind_bias s (fst (snd (trials H W (grid s) ! k)))
                                                 (snd (snd (trials H W (grid s) ! k)))
                               * (1 - moisture s))
         \<and> (cell_at (grid (simulate_step H W rng s)) y x = BURNING
             \<or> cell_at (grid (simulate_step H W rng s)) y x = TREE)
         \<and> ((\<forall>y'<H. \<forall>x'<W. \<bar>int y' - int y\<bar> \<le> 1 \<and> \<bar>int x' - int x\<bar> \<le> 1
                 \<longrightarrow> cell_at (grid s) y' x' \<noteq> BURNING)
             \<longrightarrow> cell_at (grid (simulate_step H W rng s)) y x = TREE)
         \<and> (\<forall>d. (d \<in> set offsets) = (\<bar>fst d\<bar> \<le> 1 \<and> \<bar>snd d\<bar> \<le> 1 \<and> d \<noteq> (0, 0)))
         \<and> distinct offsets \<and> length offsets = 8"
proof -
  let ?g = "grid s"
  let ?ts = "trials H W ?g"
  have cell: "cell_at (grid (simulate_step H W rng s)) y x
              = (if ignites H W rng s y x then BURNING else TREE)"
    using assms by (simp add: step_cell wf_grid_in_grid next_cell_def)
  have a: "\<forall>b d. (in_grid ?g (fst b) (snd b) \<and> cell_at ?g (fst b) (snd b) = BURNING
                  \<and> d \<in> set offsets
                  \<and> int (fst b) + fst d = int y \<and> int (snd b) + snd d = int x)
               = ((b, d) \<in> set ?ts \<and> target (b, d) = (y, x))"
  proof (intro allI iffI)
    fix b d
    assume "in_grid ?g (fst b) (snd b) \<and> cell_at ?g (fst b) (snd b) = BURNING
            \<and> d \<in> set offsets \<and> int (fst b) + fst d = int y \<and> int (snd b) + snd d = int x"
    then show "(b, d) \<in> set ?ts \<and> target (b, d) = (y, x)"
      using neighbour_trial [of ?g "fst b" "snd b" d y x H W] assms by simp
  next
    fix b d
    assume "(b, d) \<in> set ?ts \<and> target (b, d) = (y, x)"
    then show "in_grid ?g (fst b) (snd b) \<and> cell_at ?g (fst b) (snd b) = BURNING
            \<and> d \<in> set offsets \<and> int (fst b) + fst d = int y \<and> int (snd b) + snd d = int x"
      using trial_neighbour [of "(b, d)" H W ?g y x] by simp
  qed
  have c: "(cell_at (grid (simulate_step H W rng s)) y x = BURNING)
             = (\<exists>k<length ?ts. target (?ts ! k) = (y, x)
                   \<and> rng k < fire_prob s * get_wind_bias s (fst (snd (?ts ! k))) (snd (snd (?ts ! k)))
                               * (1 - moisture s))"
    by (simp add: cell ignites_iff trial_prob_def)
  have d: "cell_at (grid (simulate_step H W rng s)) y x = BURNING
             \<or> cell_at (grid (simulate_step H W rng s)) y x = TREE"
    by (simp add: cell)
  have e: "cell_at (grid (simulate_step H W rng s)) y x = TREE"
    if none: "\<forall>y'<H. \<forall>x'<W. \<bar>int y' - int y\<bar> \<le> 1 \<and> \<bar>int x' - int x\<bar> \<le> 1
                 \<longrightarrow> cell_at ?g y' x' \<noteq> BURNING"
  proof -
    have "\<not> ignites H W rng s y x"
    proof
      assume "ignites H W rng s y x"
      then obtain k where k: "k < length ?ts" "target (?ts ! k) = (y, x)"
        by (auto simp: ignites_iff)
      define t where "t = ?ts ! k"
      have "t \<in> set ?ts" using k by (simp add: t_def)
      then have nb: "in_grid ?g (fst (fst t)) (snd (fst t))"
        "cell_at ?g (fst (fst t)) (snd (fst t)) = BURNING"
        "snd t \<in> set offsets"
        "int (fst (fst t)) + fst (snd t) = int y" "int (snd (fst t)) + snd (snd t) = int x"
        using trial_neighbour [of t H W ?g y x] k by (simp_all add: t_def)
      have "fst (fst t) < H" "snd (fst t) < W"
        using nb(1) assms(1) by (simp_all add: wf_grid_in_grid)
      moreover have "\<bar>int (fst (fst t)) - int y\<bar> \<le> 1" "\<bar>int (snd (fst t)) - int x\<bar> \<le> 1"
        using nb(3,4,5) by (simp_all add: set_offsets) arith+
      ultimately show False using none nb(2) by blast
    qed
    then show ?thesis by (simp add: cell)
  qed
  have f: "\<forall>d. (d \<in> set offsets) = (\<bar>fst d\<bar> \<le> 1 \<and> \<bar>snd d\<bar> \<le> 1 \<and> d \<noteq> (0, 0))"
    by (simp add: set_offsets)
  have g: "length offsets = 8"
    by (simp add: offsets_def)
  from a distinct_trials [of H W ?g] c d e f distinct_offsets g show ?thesis by blast
qed

theorem C2_tree_ignition_witness:
  "wf_grid 2 2 [[BURNING, TREE], [EMPTY, BURNT]] \<and> (0::nat) < 2 \<and> (1::nat) < 2
   \<and> cell_at [[BURNING, TREE], [EMPTY, BURNT]] 0 1 = TREE
   \<and> cell_at (grid (simulate_step 2 2 (\<lambda>k. 0)
          ((new_sim 2 2)\<lparr>grid := [[BURNING, TREE], [EMPTY, BURNT]], wind_str := 0\<rparr>))) 0 1 = BURNING
   \<and> cell_at (grid (simulate_step 2 2 (\<lambda>k. 1)
          ((new_sim 2 2)\<lparr>grid := [[BURNING, TREE], [EMPTY, BURNT]], wind_str := 0\<rparr>))) 0 1 = TREE"
proof -
  let ?s = "(new_sim 2 2)\<lparr>grid := [[BURNING, TREE], [EMPTY, BURNT]], wind_str := 0\<rparr>"
  have wf: "wf_grid 2 2 (grid ?s)"
    by (simp add: wf_grid_def)
  have tree: "cell_at (grid ?s) 0 1 = TREE"
    by (simp add: cell_at_def)
  have y: "(0::nat) < 2" and x: "(1::nat) < 2"
    by simp_all
  have ts: "trials 2 2 (grid ?s) = [((0, 0), (0, 1))]"
    by (simp add: demo_trials)
  note iff = C2_tree_ignition [OF wf y x tree, THEN conjunct2, THEN conjunct2, THEN conjunct1]
  have hit: "cell_at (grid (simulate_step 2 2 (\<lambda>k. 0) ?s)) 0 1 = BURNING"
    unfolding iff [of "\<lambda>k. 0"] ts
    by (simp add: target_def new_sim_def get_wind_bias_def)
  have miss: "cell_at (grid (simulate_step 2 2 (\<lambda>k. 1) ?s)) 0 1 \<noteq> BURNING"
    unfolding iff [of "\<lambda>k. 1"] ts
    by (simp add: target_def new_sim_def get_wind_bias_def)
  have "cell_at (grid (simulate_step 2 2 (\<lambda>k. 1) ?s)) 0 1 = BURNING
        \<or> cell_at (grid (simulate_step 2 2 (\<lambda>k. 1) ?s)) 0 1 = TREE"
    using C2_tree_ignition [OF wf y x tree, of "\<lambda>k. 1"] by blast
  then have stay: "cell_at (grid (simulate_step 2 2 (\<lambda>k. 1) ?s)) 0 1 = TREE"
    using miss by simp
  from wf tree hit stay show ?thesis by simp
qed

text \<open>
  C6.  The step is synchronous: the grid it stores is the specification's transition
  \<open>sync_step\<close>, in which every cell is computed from the grid of the previous step, the
  parameters and the draws, and never from a cell already written in this step.
\<close>

theorem C6_step_synchronous:
  assumes "wf_grid H W (grid s)"
  shows "grid (simulate_step H W rng s) = sync_step H W rng s"
  using assms by (rule sync_step_refines)

theorem C6_step_synchronous_witness:
  "wf_grid 2 2 [[BURNING, TREE], [EMPTY, BURNT]]
   \<and> sync_step 2 2 (\<lambda>k. 0)
         ((new_sim 2 2)\<lparr>grid := [[BURNING, TREE], [EMPTY, BURNT]], wind_str := 0\<rparr>)
       = [[BURNT, BURNING], [EMPTY, BURNT]]"
proof -
  let ?s = "(new_sim 2 2)\<lparr>grid := [[BURNING, TREE], [EMPTY, BURNT]], wind_str := 0\<rparr>"
  have wf: "wf_grid 2 2 (grid ?s)"
    by (simp add: wf_grid_def)
  have "sync_step 2 2 (\<lambda>k. 0) ?s = grid (simulate_step 2 2 (\<lambda>k. 0) ?s)"
    using C6_step_synchronous [OF wf, of "\<lambda>k. 0"] by simp
  then show ?thesis
    using wf by (simp only: demo_step) simp
qed

section \<open>Initialisation, actions and the states of a run\<close>

lemma init_forest_Inr:
  "init_forest H W rng s = Inr s' \<Longrightarrow>
     0 \<le> tree_density s \<and> tree_density s \<le> 1
     \<and> s' = s\<lparr>grid := random_forest H W (tree_density s) rng\<rparr>"
  by (auto simp: init_forest_def random_forest_def split: if_splits)

lemma init_forest_valid:
  "0 \<le> tree_density s \<Longrightarrow> tree_density s \<le> 1 \<Longrightarrow>
     init_forest H W rng s = Inr (s\<lparr>grid := random_forest H W (tree_density s) rng\<rparr>)"
  by (simp add: init_forest_def random_forest_def)

lemma wf_grid_forest: "wf_grid H W (random_forest H W d rng)"
  by (simp add: wf_grid_def random_forest_def list_all_length)

lemma cell_at_forest:
  "y < H \<Longrightarrow> x < W \<Longrightarrow> cell_at (random_forest H W d rng) y x = choice_cell d (rng (y * W + x))"
  by (simp add: cell_at_def random_forest_def)

lemma forest_cells:
  "in_grid (random_forest H W d rng) y x \<Longrightarrow>
     cell_at (random_forest H W d rng) y x = EMPTY \<or> cell_at (random_forest H W d rng) y x = TREE"
  using wf_grid_in_grid [OF wf_grid_forest, of H W d rng y x]
  by (auto simp: cell_at_forest choice_cell_def)

lemma forest_no_burning: "\<not> any_cell (random_forest H W d rng) BURNING"
proof
  assume "any_cell (random_forest H W d rng) BURNING"
  then obtain y x where "in_grid (random_forest H W d rng) y x" "cell_at (random_forest H W d rng) y x = BURNING"
    by (auto simp: any_cell_iff)
  then show False using forest_cells [of H W d rng y x] by simp
qed

lemma forest_no_burnt: "\<not> any_cell (random_forest H W d rng) BURNT"
proof
  assume "any_cell (random_forest H W d rng) BURNT"
  then obtain y x where "in_grid (random_forest H W d rng) y x" "cell_at (random_forest H W d rng) y x = BURNT"
    by (auto simp: any_cell_iff)
  then show False using forest_cells [of H W d rng y x] by simp
qed

lemma in_grid_fold_set_cell [simp]:
  "in_grid (fold (\<lambda>i g. set_cell g (fst (ps ! i)) (snd (ps ! i)) c) is g) y x = in_grid g y x"
  by (induction "is" arbitrary: g) simp_all

lemma wf_grid_fold_set_cell:
  "wf_grid H W g \<Longrightarrow> wf_grid H W (fold (\<lambda>i g. set_cell g (fst (ps ! i)) (snd (ps ! i)) c) is g)"
  by (induction "is" arbitrary: g) (simp_all add: wf_grid_set_cell)

lemma cell_at_fold_set_cell:
  "cell_at (fold (\<lambda>i g. set_cell g (fst (ps ! i)) (snd (ps ! i)) c) is g) y x =
     (if in_grid g y x \<and> (\<exists>i\<in>set is. ps ! i = (y, x)) then c else cell_at g y x)"
proof (induction "is" arbitrary: g)
  case Nil
  show ?case by simp
next
  case (Cons i "is")
  show ?case
    by (cases "ps ! i") (auto simp: Cons.IH cell_at_set_cell)
qed

lemma step_burning_origin:
  assumes "any_cell (grid (simulate_step H W rng s)) BURNING"
  shows "any_cell (grid s) BURNING \<and> any_cell (grid s) TREE"
proof -
  from assms obtain y x where in_g: "in_grid (grid s) y x"
    and b: "cell_at (grid (simulate_step H W rng s)) y x = BURNING"
    by (auto simp: any_cell_iff)
  have nc: "next_cell H W rng s y x = BURNING"
    using b step_cell [OF in_g, of H W rng] by simp
  then have tree: "cell_at (grid s) y x = TREE" and ign: "ignites H W rng s y x"
    by (cases "cell_at (grid s) y x"; simp add: next_cell_def split: if_splits)+
  from ign obtain k where k: "k < length (trials H W (grid s))"
      "target (trials H W (grid s) ! k) = (y, x)"
    by (auto simp: ignites_iff)
  then have "trials H W (grid s) ! k \<in> set (trials H W (grid s))" by simp
  from trial_neighbour [OF this k(2)] have "any_cell (grid s) BURNING"
    by (auto simp: any_cell_iff)
  moreover have "any_cell (grid s) TREE"
    using in_g tree by (auto simp: any_cell_iff)
  ultimately show ?thesis by simp
qed

lemma running_simulate_step:
  "running (simulate_step H W rng s) = (any_cell (grid (simulate_step H W rng s)) BURNING \<and> running s)"
  by (auto simp: simulate_step_def Let_def)

lemma fire_inv_step: "fire_inv s \<Longrightarrow> fire_inv (simulate_step H W rng s)"
  using step_burning_origin [of H W rng s]
  by (auto simp: fire_inv_def running_simulate_step)


lemma reset_forest_Inr:
  "reset_forest H W rng s = Inr s' \<Longrightarrow>
     0 \<le> slider0 (sliders s) \<and> slider0 (sliders s) \<le> 1
     \<and> s' = s\<lparr>tree_density := slider0 (sliders s),
              grid := random_forest H W (slider0 (sliders s)) rng, running := False, paused := False\<rparr>"
  by (auto simp: reset_forest_def dest!: init_forest_Inr split: sum.splits)

lemma slider0_sync [simp]: "sliders (sync_params s) = sliders s"
  by (simp add: sync_params_def Let_def)

lemma grid_sync [simp]: "grid (sync_params s) = grid s"
  by (simp add: sync_params_def Let_def)

lemma running_sync [simp]: "running (sync_params s) = running s"
  by (simp add: sync_params_def Let_def)

lemma randomize_Inr:
  "randomize H W us rng s = Inr s' \<Longrightarrow>
     grid s' = random_forest H W (uniform 0.3 0.8 (us 0)) rng \<and> \<not> running s' \<and> \<not> paused s'"
  by (auto simp: randomize_def Let_def dest!: reset_forest_Inr)

lemma grid_start_fire:
  "grid (start_fire picks s) =
     (if argwhere (grid s) TREE = [] then grid s
      else fold (\<lambda>i g. set_cell g (fst (argwhere (grid s) TREE ! i))
                                    (snd (argwhere (grid s) TREE ! i)) BURNING) picks (grid s))"
  by (simp add: start_fire_def Let_def)

lemma running_start_fire:
  "running (start_fire picks s) = (argwhere (grid s) TREE \<noteq> [] \<or> running s)"
  by (simp add: start_fire_def Let_def)

lemma reachable_inv: "reachable H W s \<Longrightarrow> wf_grid H W (grid s) \<and> fire_inv s"
proof (induction rule: reachable.induct)
  case (r_init rng s)
  then show ?case
    by (auto dest!: init_forest_Inr simp: wf_grid_forest fire_inv_def forest_no_burning)
next
  case (r_start_fire s picks)
  then show ?case
    by (auto simp: grid_start_fire running_start_fire wf_grid_fold_set_cell fire_inv_def)
next
  case (r_reset s rng s')
  then show ?case
    by (auto dest!: reset_forest_Inr simp: wf_grid_forest fire_inv_def forest_no_burning)
next
  case (r_toggle s)
  then show ?case by (simp add: toggle_pause_def fire_inv_def)
next
  case (r_step s rng)
  then show ?case by (simp add: wf_grid_simulate_step fire_inv_step)
next
  case (r_randomize s us rng s')
  then show ?case
    by (auto dest!: randomize_Inr simp: wf_grid_forest fire_inv_def forest_no_burning)
next
  case (r_sync s)
  then show ?case by (simp add: fire_inv_def)
next
  case (r_click s gx gy)
  then show ?case by (simp add: click_ignite_def fire_inv_def wf_grid_set_cell)
next
  case (r_drag s k v)
  then show ?case by (simp add: slider_drag_def fire_inv_def)
qed


lemma argwhere_empty_iff: "(argwhere g c = []) = (\<not> any_cell g c)"
proof -
  have "(argwhere g c = []) = (\<forall>p. p \<notin> set (argwhere g c))"
    by (cases "argwhere g c") auto
  also have "\<dots> = (\<not> any_cell g c)"
    unfolding set_argwhere any_cell_iff by auto
  finally show ?thesis .
qed

text \<open>
  C7.  The running flag is the still-burning signal of the step.  In every state of a run,
  after a step the flag is on exactly when some cell of the new grid is \<^verbatim>\<open>BURNING\<close>.  In
  any state at all, no \<^verbatim>\<open>BURNING\<close> cell afterwards means the flag is off; and when the
  grid holds no \<^verbatim>\<open>TREE\<close> cell (a single \<^verbatim>\<open>BURNING\<close> cell, say), the step leaves no
  \<^verbatim>\<open>BURNING\<close> cell and the flag off.
\<close>

theorem C7_still_burning_signal:
  "(reachable H W s \<longrightarrow>
      running (simulate_step H W rng s) = any_cell (grid (simulate_step H W rng s)) BURNING)
   \<and> (\<not> any_cell (grid (simulate_step H W rng s)) BURNING \<longrightarrow> \<not> running (simulate_step H W rng s))
   \<and> (\<not> any_cell (grid s) TREE \<longrightarrow>
        \<not> any_cell (grid (simulate_step H W rng s)) BURNING \<and> \<not> running (simulate_step H W rng s))"
proof -
  have a: "running (simulate_step H W rng s) = any_cell (grid (simulate_step H W rng s)) BURNING"
    if "reachable H W s"
  proof -
    have "fire_inv s" using reachable_inv [OF that] by simp
    then show ?thesis
      using step_burning_origin [of H W rng s]
      by (auto simp: running_simulate_step fire_inv_def)
  qed
  have b: "\<not> any_cell (grid (simulate_step H W rng s)) BURNING \<longrightarrow> \<not> running (simulate_step H W rng s)"
    by (simp add: running_simulate_step)
  have c: "\<not> any_cell (grid (simulate_step H W rng s)) BURNING \<and> \<not> running (simulate_step H W rng s)"
    if "\<not> any_cell (grid s) TREE"
    using that step_burning_origin [of H W rng s] by (auto simp: running_simulate_step)
  from a b c show ?thesis by blast
qed

theorem C7_still_burning_signal_witness:
  "reachable 1 1 ((new_sim 1 1)\<lparr>grid := [[BURNING]], running := True\<rparr>)
   \<and> \<not> any_cell [[BURNING]] TREE
   \<and> \<not> any_cell (grid (simulate_step 1 1 (\<lambda>k. 0) ((new_sim 1 1)\<lparr>grid := [[BURNING]], running := True\<rparr>))) BURNING
   \<and> \<not> running (simulate_step 1 1 (\<lambda>k. 0) ((new_sim 1 1)\<lparr>grid := [[BURNING]], running := True\<rparr>))"
proof -
  let ?t = "(new_sim 1 1)\<lparr>grid := [[TREE]]\<rparr>"
  let ?b = "(new_sim 1 1)\<lparr>grid := [[BURNING]], running := True\<rparr>"
  have "init_forest 1 1 (\<lambda>k. 1 / 2) (new_sim 1 1) = Inr ?t"
    by (simp add: init_forest_def random_forest_def choice_cell_def new_sim_def)
  then have "reachable 1 1 ?t" by (rule r_init)
  then have "reachable 1 1 (click_ignite 1 1 0 0 ?t)" by (rule r_click)
  moreover have "click_ignite 1 1 0 0 ?t = ?b"
    by (simp add: click_ignite_def cell_at_def set_cell_def)
  ultimately have r: "reachable 1 1 ?b" by simp
  have n: "\<not> any_cell (grid ?b) TREE" by (simp add: any_cell_def)
  from r n C7_still_burning_signal [of 1 1 ?b "\<lambda>k. 0"] show ?thesis
    by simp
qed

lemma cell_index_inj:
  assumes "x < W" "x' < W" "y * W + x = y' * W + x'"
  shows "y = y' \<and> x = (x'::nat)"
proof -
  have "(y * W + x) div W = y" "(y' * W + x') div W = y'"
    using assms(1,2) by simp_all
  then have "y = y'" using assms(3) by simp
  then show ?thesis using assms(3) by simp
qed

text \<open>
  C8.  For a tree density in \<^verbatim>\<open>[0, 1]\<close>, \<^verbatim>\<open>_init_forest\<close> returns, and the grid it stores
  is the random forest: a full \<open>H \<times> W\<close> grid that does not depend on the grid before, in
  which the cell \<open>(y, x)\<close> is decided by its own uniform draw (\<^verbatim>\<open>EMPTY\<close> below
  \<^verbatim>\<open>1 - tree_density\<close>, \<^verbatim>\<open>TREE\<close> otherwise, so \<^verbatim>\<open>TREE\<close> with probability
  \<^verbatim>\<open>tree_density\<close>); no cell is \<^verbatim>\<open>BURNING\<close> or \<^verbatim>\<open>BURNT\<close>.
\<close>

theorem C8_initialize:
  assumes "0 \<le> tree_density s" and "tree_density s \<le> 1"
  shows "init_forest H W rng s = Inr (s\<lparr>grid := random_forest H W (tree_density s) rng\<rparr>)
         \<and> wf_grid H W (random_forest H W (tree_density s) rng)
         \<and> (\<forall>y<H. \<forall>x<W.
               cell_at (random_forest H W (tree_density s) rng) y x
                 = (if rng (y * W + x) < 1 - tree_density s then EMPTY else TREE))
         \<and> (\<forall>y<H. \<forall>x<W. \<forall>y'<H. \<forall>x'<W. y * W + x = y' * W + x' \<longrightarrow> y = y' \<and> x = x')
         \<and> \<not> any_cell (random_forest H W (tree_density s) rng) BURNING
         \<and> \<not> any_cell (random_forest H W (tree_density s) rng) BURNT"
proof -
  let ?g = "random_forest H W (tree_density s) rng"
  have a: "init_forest H W rng s = Inr (s\<lparr>grid := ?g\<rparr>)"
    using assms by (rule init_forest_valid)
  have b: "wf_grid H W ?g" by (rule wf_grid_forest)
  have c: "\<forall>y<H. \<forall>x<W. cell_at ?g y x = (if rng (y * W + x) < 1 - tree_density s then EMPTY else TREE)"
    by (simp add: cell_at_forest choice_cell_def)
  have d: "\<forall>y<H. \<forall>x<W. \<forall>y'<H. \<forall>x'<W. y * W + x = y' * W + x' \<longrightarrow> y = y' \<and> x = x'"
    using cell_index_inj by blast
  from a b c d forest_no_burning [of H W "tree_density s" rng]
    forest_no_burnt [of H W "tree_density s" rng]
  show ?thesis by blast
qed

theorem C8_initialize_witness:
  "(0::real) \<le> 3 / 5 \<and> (3 / 5::real) \<le> 1
   \<and> init_forest 1 2 (\<lambda>k. if k = 0 then 0 else 1 / 2) (new_sim 1 2)
        = Inr ((new_sim 1 2)\<lparr>grid := [[EMPTY, TREE]]\<rparr>)"
proof -
  let ?rng = "\<lambda>k::nat. if k = 0 then 0 else 1 / 2 :: real"
  have d: "0 \<le> tree_density (new_sim 1 2)" "tree_density (new_sim 1 2) \<le> 1"
    by (simp_all add: new_sim_def)
  have row: "[0..<2] = [0, Suc 0]"
    by (simp add: numeral_2_eq_2)
  have g: "random_forest 1 2 (tree_density (new_sim 1 2)) ?rng = [[EMPTY, TREE]]"
    unfolding random_forest_def row by (simp add: choice_cell_def new_sim_def)
  have "init_forest 1 2 ?rng (new_sim 1 2)
          = Inr ((new_sim 1 2)\<lparr>grid := random_forest 1 2 (tree_density (new_sim 1 2)) ?rng\<rparr>)"
    using C8_initialize [OF d, of 1 2 ?rng] by (rule conjunct1)
  then show ?thesis
    unfolding g by simp
qed


lemma start_fire_no_trees: "\<not> any_cell (grid s) TREE \<Longrightarrow> start_fire picks s = s"
  by (simp add: start_fire_def argwhere_empty_iff [symmetric])

lemma start_fire_trees:
  "any_cell (grid s) TREE \<Longrightarrow>
     start_fire picks s =
       s\<lparr>grid := fold (\<lambda>i g. set_cell g (fst (argwhere (grid s) TREE ! i))
                                        (snd (argwhere (grid s) TREE ! i)) BURNING) picks (grid s),
         running := True\<rparr>"
  using argwhere_empty_iff [of "grid s" TREE] by (simp add: start_fire_def Let_def)

lemma distinct_ignited:
  assumes "valid_choice (length (argwhere (grid s) TREE)) k picks"
  shows "distinct (ignited picks s)"
proof -
  have "inj_on (nth (argwhere (grid s) TREE)) (set picks)"
    using assms by (intro inj_on_nth distinct_argwhere) (simp add: valid_choice_def list_all_iff)
  then show ?thesis
    using assms by (simp add: ignited_def distinct_map valid_choice_def)
qed

lemma ignited_trees:
  assumes "valid_choice (length (argwhere (grid s) TREE)) k picks" and "p \<in> set (ignited picks s)"
  shows "in_grid (grid s) (fst p) (snd p) \<and> cell_at (grid s) (fst p) (snd p) = TREE"
proof -
  from assms(2) obtain i where "i \<in> set picks" "p = argwhere (grid s) TREE ! i"
    by (auto simp: ignited_def)
  then have "p \<in> set (argwhere (grid s) TREE)"
    using assms(1) by (simp add: valid_choice_def list_all_iff)
  then show ?thesis by (simp add: set_argwhere)
qed

text \<open>
  C9.  With no \<^verbatim>\<open>TREE\<close> cell in the grid, \<^verbatim>\<open>_start_fire\<close> returns the state as it was:
  the grid and the running flag are untouched.  Otherwise, for the \<open>min 3 n\<close> distinct
  indices that \<^verbatim>\<open>np.random.choice\<close> picks among the \<open>n\<close> trees, the ignited cells are
  that many pairwise different \<^verbatim>\<open>TREE\<close> cells, exactly these cells become \<^verbatim>\<open>BURNING\<close>,
  every other cell keeps its state, and the running flag is set.
\<close>

theorem C9_ignite:
  "(\<not> any_cell (grid s) TREE \<longrightarrow> start_fire picks s = s)
   \<and> (any_cell (grid s) TREE
       \<and> valid_choice (length (argwhere (grid s) TREE)) (min 3 (length (argwhere (grid s) TREE))) picks
       \<longrightarrow> length (ignited picks s) = min 3 (length (argwhere (grid s) TREE))
         \<and> 0 < length (ignited picks s)
         \<and> distinct (ignited picks s)
         \<and> (\<forall>p\<in>set (ignited picks s).
               in_grid (grid s) (fst p) (snd p) \<and> cell_at (grid s) (fst p) (snd p) = TREE)
         \<and> (\<forall>y x. in_grid (grid (start_fire picks s)) y x = in_grid (grid s) y x)
         \<and> (\<forall>y x. in_grid (grid s) y x \<longrightarrow>
               cell_at (grid (start_fire picks s)) y x
                 = (if (y, x) \<in> set (ignited picks s) then BURNING else cell_at (grid s) y x))
         \<and> start_fire picks s = s\<lparr>grid := grid (start_fire picks s), running := True\<rparr>)"
proof -
  let ?trees = "argwhere (grid s) TREE"
  have a: "\<not> any_cell (grid s) TREE \<longrightarrow> start_fire picks s = s"
    by (simp add: start_fire_no_trees)
  have b: "length (ignited picks s) = min 3 (length ?trees)
         \<and> 0 < length (ignited picks s)
         \<and> distinct (ignited picks s)
         \<and> (\<forall>p\<in>set (ignited picks s).
               in_grid (grid s) (fst p) (snd p) \<and> cell_at (grid s) (fst p) (snd p) = TREE)
         \<and> (\<forall>y x. in_grid (grid (start_fire picks s)) y x = in_grid (grid s) y x)
         \<and> (\<forall>y x. in_grid (grid s) y x \<longrightarrow>
               cell_at (grid (start_fire picks s)) y x
                 = (if (y, x) \<in> set (ignited picks s) then BURNING else cell_at (grid s) y x))
         \<and> start_fire picks s = s\<lparr>grid := grid (start_fire picks s), running := True\<rparr>"
    if trees: "any_cell (grid s) TREE"
      and valid: "valid_choice (length ?trees) (min 3 (length ?trees)) picks"
  proof -
    have ne: "?trees \<noteq> []"
      using trees by (simp add: argwhere_empty_iff)
    have len: "length (ignited picks s) = min 3 (length ?trees)"
      using valid by (simp add: ignited_def valid_choice_def)
    have pos: "0 < length (ignited picks s)"
      using ne by (simp add: len)
    have mem: "(\<exists>i\<in>set picks. ?trees ! i = (y, x)) = ((y, x) \<in> set (ignited picks s))" for y x
      unfolding ignited_def set_map image_iff by (metis (no_types))
    have cells: "\<forall>y x. in_grid (grid s) y x \<longrightarrow>
               cell_at (grid (start_fire picks s)) y x
                 = (if (y, x) \<in> set (ignited picks s) then BURNING else cell_at (grid s) y x)"
      by (simp add: start_fire_trees [OF trees] cell_at_fold_set_cell mem)
    have shape: "\<forall>y x. in_grid (grid (start_fire picks s)) y x = in_grid (grid s) y x"
      by (simp add: start_fire_trees [OF trees])
    have rest: "start_fire picks s = s\<lparr>grid := grid (start_fire picks s), running := True\<rparr>"
      by (simp add: start_fire_trees [OF trees])
    from len pos distinct_ignited [OF valid] ignited_trees [OF valid] cells shape rest
    show ?thesis by blast
  qed
  from a b show ?thesis by blast
qed


theorem C9_ignite_witness:
  "any_cell [[TREE, EMPTY]] TREE
   \<and> valid_choice (length (argwhere [[TREE, EMPTY]] TREE))
         (min 3 (length (argwhere [[TREE, EMPTY]] TREE))) [0]
   \<and> ignited [0] ((new_sim 1 2)\<lparr>grid := [[TREE, EMPTY]]\<rparr>) = [(0, 0)]
   \<and> cell_at (grid (start_fire [0] ((new_sim 1 2)\<lparr>grid := [[TREE, EMPTY]]\<rparr>))) 0 0 = BURNING
   \<and> cell_at (grid (start_fire [0] ((new_sim 1 2)\<lparr>grid := [[TREE, EMPTY]]\<rparr>))) 0 1 = EMPTY
   \<and> \<not> any_cell (grid (new_sim 1 2)) TREE
   \<and> start_fire [0] (new_sim 1 2) = new_sim 1 2"
proof -
  let ?s = "(new_sim 1 2)\<lparr>grid := [[TREE, EMPTY]]\<rparr>"
  have row: "[0..<2] = [0, Suc 0]"
    by (simp add: numeral_2_eq_2)
  have trees: "argwhere [[TREE, EMPTY]] TREE = [(0, 0)]"
    by (simp add: argwhere_def row)
  have any: "any_cell (grid ?s) TREE"
    by (simp add: any_cell_def)
  have valid: "valid_choice (length (argwhere (grid ?s) TREE))
                 (min 3 (length (argwhere (grid ?s) TREE))) [0]"
    by (simp add: trees valid_choice_def)
  have ign: "ignited [0] ?s = [(0, 0)]"
    by (simp add: ignited_def trees)
  have none: "\<not> any_cell (grid (new_sim 1 2)) TREE"
    by (simp add: any_cell_def new_sim_def numeral_2_eq_2)
  have in0: "in_grid (grid ?s) 0 0" and in1: "in_grid (grid ?s) 0 1"
    by (simp_all add: in_grid_def)
  have cells: "\<forall>y x. in_grid (grid ?s) y x \<longrightarrow>
               cell_at (grid (start_fire [0] ?s)) y x
                 = (if (y, x) \<in> set (ignited [0] ?s) then BURNING else cell_at (grid ?s) y x)"
    using C9_ignite [of ?s "[0]"] any valid by blast
  have c0: "cell_at (grid (start_fire [0] ?s)) 0 0 = BURNING"
    using cells [rule_format, OF in0] unfolding ign by simp
  have c1: "cell_at (grid (start_fire [0] ?s)) 0 1 = EMPTY"
    using cells [rule_format, OF in1] unfolding ign by (simp add: cell_at_def)
  have same: "start_fire [0] (new_sim 1 2) = new_sim 1 2"
    using C9_ignite [of "new_sim 1 2" "[0]"] none by blast
  from any valid ign c0 c1 none same show ?thesis by simp
qed

lemma uniform_range:
  "0 \<le> u \<Longrightarrow> u < 1 \<Longrightarrow> lo < hi \<Longrightarrow> lo \<le> uniform lo hi u \<and> uniform lo hi u < hi"
proof -
  assume u: "0 \<le> u" "u < 1" and lh: "lo < hi"
  have "0 \<le> (hi - lo) * u" using u lh by simp
  moreover have "(hi - lo) * u < (hi - lo) * 1"
    using u lh by (intro mult_strict_left_mono) simp_all
  ultimately show ?thesis by (simp add: uniform_def)
qed

lemma randomize_result:
  assumes "0 \<le> uniform 0.3 0.8 (us 0)" "uniform 0.3 0.8 (us 0) \<le> 1"
  shows "randomize H W us rng s =
     Inr ((sync_params
            (s\<lparr>sliders := \<lparr>slider0 = uniform 0.3 0.8 (us 0), slider1 = uniform 0 360 (us 1),
                            slider2 = uniform 0.2 0.9 (us 2), slider3 = uniform 0 0.4 (us 3),
                            slider4 = uniform 10 45 (us 4)\<rparr>\<rparr>))
          \<lparr>grid := random_forest H W (uniform 0.3 0.8 (us 0)) rng,
           running := False, paused := False\<rparr>)"
  using assms
  by (simp add: randomize_def reset_forest_def init_forest_def sync_params_def Let_def)


text \<open>
  C10.  \<^verbatim>\<open>_randomize\<close>, with uniform draws in \<^verbatim>\<open>[0, 1)\<close>, returns a state in which the
  five parameters lie in their sub-ranges, the grid is a fresh random forest at the new
  tree density (whatever the grid was before), with no \<^verbatim>\<open>BURNING\<close> or \<^verbatim>\<open>BURNT\<close> cell,
  and both the running and the paused flag are off.
\<close>

theorem C10_randomize:
  assumes "\<forall>i<5. 0 \<le> us i \<and> us i < 1"
  shows "\<exists>s'. randomize H W us rng s = Inr s'
           \<and> grid s' = random_forest H W (tree_density s') rng
           \<and> wf_grid H W (grid s')
           \<and> \<not> any_cell (grid s') BURNING \<and> \<not> any_cell (grid s') BURNT
           \<and> \<not> running s' \<and> \<not> paused s'
           \<and> tree_density s' = uniform 0.3 0.8 (us 0)
           \<and> 0.3 \<le> tree_density s' \<and> tree_density s' < 0.8
           \<and> wind_dir s' = uniform 0 360 (us 1) \<and> 0 \<le> wind_dir s' \<and> wind_dir s' < 360
           \<and> wind_str s' = uniform 0.2 0.9 (us 2) \<and> 0.2 \<le> wind_str s' \<and> wind_str s' < 0.9
           \<and> moisture s' = uniform 0 0.4 (us 3) \<and> 0 \<le> moisture s' \<and> moisture s' < 0.4
           \<and> temperature s' = uniform 10 45 (us 4) \<and> 10 \<le> temperature s' \<and> temperature s' < 45
           \<and> fire_prob s' = derive_fire_probability (tree_density s') (wind_dir s') (wind_str s')
                               (moisture s') (temperature s')"
proof -
  let ?sl = "\<lparr>slider0 = uniform 0.3 0.8 (us 0), slider1 = uniform 0 360 (us 1),
              slider2 = uniform 0.2 0.9 (us 2), slider3 = uniform 0 0.4 (us 3),
              slider4 = uniform 10 45 (us 4)\<rparr>"
  let ?p = "sync_params (s\<lparr>sliders := ?sl\<rparr>)"
  let ?d = "uniform 0.3 0.8 (us 0)"
  let ?s' = "?p\<lparr>grid := random_forest H W ?d rng, running := False, paused := False\<rparr>"
  have u: "0 \<le> us i" "us i < 1" if "i < 5" for i
    using assms that by simp_all
  have r0: "0.3 \<le> ?d \<and> ?d < 0.8"
    by (rule uniform_range) (simp_all add: u)
  have r1: "0 \<le> uniform 0 360 (us 1) \<and> uniform 0 360 (us 1) < 360"
    by (rule uniform_range) (simp_all add: u)
  have r2: "0.2 \<le> uniform 0.2 0.9 (us 2) \<and> uniform 0.2 0.9 (us 2) < 0.9"
    by (rule uniform_range) (simp_all add: u)
  have r3: "0 \<le> uniform 0 0.4 (us 3) \<and> uniform 0 0.4 (us 3) < 0.4"
    by (rule uniform_range) (simp_all add: u)
  have r4: "10 \<le> uniform 10 45 (us 4) \<and> uniform 10 45 (us 4) < 45"
    by (rule uniform_range) (simp_all add: u)
  have res: "randomize H W us rng s = Inr ?s'"
    using r0 by (intro randomize_result) simp_all
  have params: "tree_density ?s' = ?d" "wind_dir ?s' = uniform 0 360 (us 1)"
    "wind_str ?s' = uniform 0.2 0.9 (us 2)" "moisture ?s' = uniform 0 0.4 (us 3)"
    "temperature ?s' = uniform 10 45 (us 4)"
    by (simp_all add: sync_params_def Let_def)
  have fp: "fire_prob ?s' = derive_fire_probability (tree_density ?s') (wind_dir ?s') (wind_str ?s')
                               (moisture ?s') (temperature ?s')"
    unfolding params
    by (simp add: fire_prob_sync derive_fire_probability_def spec_temp_factor_def clamp_spec_clamp)
  have g: "grid ?s' = random_forest H W (tree_density ?s') rng"
    unfolding params by simp
  have flags: "\<not> running ?s'" "\<not> paused ?s'"
    by simp_all
  have forest: "wf_grid H W (grid ?s')" "\<not> any_cell (grid ?s') BURNING" "\<not> any_cell (grid ?s') BURNT"
    by (simp_all add: wf_grid_forest forest_no_burning forest_no_burnt)
  have ranges: "0.3 \<le> tree_density ?s'" "tree_density ?s' < 0.8"
    "0 \<le> wind_dir ?s'" "wind_dir ?s' < 360"
    "0.2 \<le> wind_str ?s'" "wind_str ?s' < 0.9"
    "0 \<le> moisture ?s'" "moisture ?s' < 0.4"
    "10 \<le> temperature ?s'" "temperature ?s' < 45"
    unfolding params using r0 r1 r2 r3 r4 by blast+
  show ?thesis
    apply (rule exI [of _ ?s'])
    using res g forest flags params fp ranges by blast
qed

theorem C10_randomize_witness:
  "\<exists>s'. randomize 1 1 (\<lambda>i. 0) (\<lambda>k. 0) ((new_sim 1 1)\<lparr>grid := [[BURNING]], running := True\<rparr>)
              = Inr s'
            \<and> \<not> any_cell (grid s') BURNING \<and> \<not> running s' \<and> \<not> paused s'"
proof -
  have u: "\<forall>i<5. (0::real) \<le> (\<lambda>i::nat. 0) i \<and> (\<lambda>i::nat. 0::real) i < 1"
    by simp
  from C10_randomize [OF u, of 1 1 "\<lambda>k. 0" "(new_sim 1 1)\<lparr>grid := [[BURNING]], running := True\<rparr>"]
  have "\<exists>s'. randomize 1 1 (\<lambda>i. 0) (\<lambda>k. 0) ((new_sim 1 1)\<lparr>grid := [[BURNING]], running := True\<rparr>)
              = Inr s'
            \<and> \<not> any_cell (grid s') BURNING \<and> \<not> running s' \<and> \<not> paused s'"
    by blast
  then show ?thesis by simp
qed

section \<open>Wind bias\<close>

lemma cos_minus_turns: "cos (x - 2 * pi * of_int n) = (cos x :: real)"
  by (simp add: cos_diff)

lemma atan2_range: "- pi < atan2 y x \<and> atan2 y x \<le> pi"
proof -
  have b: "- (pi / 2) < arctan (y / x)" "arctan (y / x) < pi / 2"
    by (rule arctan_lbound, rule arctan_ubound)
  consider "0 < x" | "x < 0" "0 \<le> y" | "x < 0" "y < 0" | "x = 0"
    by linarith
  then show ?thesis
  proof cases
    case 1
    then show ?thesis using b by (simp add: atan2_def)
  next
    case 2
    then have "y / x \<le> 0" by (simp add: divide_nonneg_neg)
    then have "arctan (y / x) \<le> 0" by simp
    then show ?thesis using 2 b by (simp add: atan2_def)
  next
    case 3
    then have "0 < y / x" by (simp add: divide_neg_neg)
    then have "0 < arctan (y / x)" by simp
    then show ?thesis using 3 b by (simp add: atan2_def)
  next
    case 4
    then have "atan2 y x = pi / 2 \<or> atan2 y x = - (pi / 2) \<or> atan2 y x = 0"
      by (simp add: atan2_def)
    then show ?thesis using pi_gt_zero by linarith
  qed
qed

lemma wind_angle_range: "- 180 < wind_angle dy dx \<and> wind_angle dy dx \<le> 180"
proof -
  let ?a = "atan2 (of_int dx) (of_int (- dy))"
  have r: "- pi < ?a" "?a \<le> pi"
    using atan2_range [of "of_int dx" "of_int (- dy)"] by simp_all
  have "- 180 * pi < ?a * 180" using r(1) by simp
  then have lo: "- 180 < ?a * 180 / pi"
    using pi_gt_zero by (simp add: pos_less_divide_eq)
  have "?a * 180 \<le> 180 * pi" using r(2) by simp
  then have hi: "?a * 180 / pi \<le> 180"
    using pi_gt_zero by (simp add: pos_divide_le_eq)
  from lo hi show ?thesis by (simp add: wind_angle_def)
qed

lemma spec_remainder:
  fixes d :: real
  defines "r \<equiv> d - 360 * of_int \<lfloor>d / 360\<rfloor>"
  shows "0 \<le> r \<and> r < 360"
proof -
  have "of_int \<lfloor>d / 360\<rfloor> \<le> d / 360" "d / 360 < of_int \<lfloor>d / 360\<rfloor> + 1"
    by linarith+
  then show ?thesis unfolding r_def by (simp add: field_simps)
qed

lemma spec_angular_distance_range:
  "0 \<le> spec_angular_distance a b \<and> spec_angular_distance a b \<le> 180"
  using spec_remainder [of "\<bar>a - b\<bar>"]
  by (auto simp: spec_angular_distance_def Let_def min_def)

lemma cos_radians_wrap: "cos (radians (360 - d)) = cos (radians d)"
proof -
  have "radians (360 - d) = 2 * pi - radians d"
    by (simp add: radians_def field_simps)
  then show ?thesis by simp
qed

lemma cos_radians_turns: "cos (radians (d - 360 * of_int n)) = cos (radians d)"
proof -
  have "radians (d - 360 * of_int n) = radians d - 2 * pi * of_int n"
    by (simp add: radians_def field_simps)
  then show ?thesis by (simp only: cos_minus_turns)
qed

lemma cos_spec_angular_distance:
  "cos (radians (spec_angular_distance a b)) = cos (radians \<bar>a - b\<bar>)"
  by (simp add: spec_angular_distance_def Let_def min_def cos_radians_wrap cos_radians_turns)

lemma cos_wind_diff:
  "cos (radians (wind_diff s dy dx)) = cos (radians \<bar>wind_angle dy dx - wind_dir s\<bar>)"
  by (simp add: wind_diff_def Let_def cos_radians_wrap)


lemma abs_wind_diff:
  assumes "0 \<le> wind_dir s" and "wind_dir s < 360"
  shows "\<bar>wind_diff s dy dx\<bar> = spec_angular_distance (wind_angle dy dx) (wind_dir s)"
proof -
  define d where "d = \<bar>wind_angle dy dx - wind_dir s\<bar>"
  have d: "0 \<le> d" "d < 540"
    using wind_angle_range [of dy dx] assms by (simp_all add: d_def abs_if)
  have code: "wind_diff s dy dx = (if 180 < d then 360 - d else d)"
    by (simp add: wind_diff_def d_def Let_def)
  have spec: "spec_angular_distance (wind_angle dy dx) (wind_dir s)
                = min (d - 360 * of_int \<lfloor>d / 360\<rfloor>) (360 - (d - 360 * of_int \<lfloor>d / 360\<rfloor>))"
    by (simp add: spec_angular_distance_def d_def Let_def)
  show ?thesis
  proof (cases "d < 360")
    case True
    then have "\<lfloor>d / 360\<rfloor> = 0"
      using d(1) by (intro floor_unique) simp_all
    then show ?thesis
      using True d(1) by (simp add: code spec min_def)
  next
    case False
    then have "\<lfloor>d / 360\<rfloor> = 1"
      using d(2) by (intro floor_unique) simp_all
    then show ?thesis
      using False d(2) by (simp add: code spec min_def)
  qed
qed

lemma wind_angle_south_west: "wind_angle 1 (- 1) = - 135"
proof -
  have "atan2 (- 1) (- 1) = pi / 4 - pi"
    by (simp add: atan2_def arctan_one)
  then have "wind_angle 1 (- 1) = (pi / 4 - pi) * 180 / pi"
    by (simp add: wind_angle_def)
  also have "\<dots> = - 135"
    using pi_gt_zero by (simp add: field_simps)
  finally show ?thesis .
qed

lemma wind_angle_cardinal:
  "wind_angle (- 1) 0 = 0 \<and> wind_angle 0 1 = 90 \<and> wind_angle 1 0 = 180 \<and> wind_angle 0 (- 1) = - 90"
  using pi_gt_zero by (simp add: wind_angle_def atan2_def)

lemma wind_diff_negative:
  "wind_diff ((new_sim 1 1)\<lparr>wind_dir := 350\<rparr>) 1 (- 1) = - 125"
  by (simp add: wind_diff_def wind_angle_south_west Let_def)

lemma wind_angle_diagonal:
  "wind_angle (- 1) (- 1) = - 45 \<and> wind_angle (- 1) 1 = 45 \<and> wind_angle 1 1 = 135"
proof -
  have a: "atan2 (- 1) 1 = - (pi / 4)" "atan2 1 1 = pi / 4" "atan2 1 (- 1) = pi - pi / 4"
    by (simp_all add: atan2_def arctan_one arctan_minus)
  have "- (pi / 4) * 180 / pi = - 45" "pi / 4 * 180 / pi = 45" "(pi - pi / 4) * 180 / pi = 135"
    using pi_gt_zero by (simp_all add: field_simps)
  then show ?thesis
    by (simp add: wind_angle_def a)
qed

text \<open>
  C3.  \<^verbatim>\<open>_get_wind_bias\<close> returns 1 when the wind strength is 0, for every offset.
  Otherwise it returns \<^verbatim>\<open>max(0.1, 1 + wind_str * cos(radians(diff)))\<close>, where \<open>diff\<close> is
  the shortest angular distance, in \<^verbatim>\<open>[0, 180]\<close>, between the wind direction and the
  bearing \<^verbatim>\<open>atan2(dx, -dy) * 180 / pi\<close> of the offset.  The bearing the code computes is
  that value: 0 for north, 45, 90 for east, 135, 180 for south, and -135, -90, -45 on
  the west side.  For a wind direction in \<^verbatim>\<open>[0, 360)\<close> the local variable of the code is
  the distance up to its sign, which the cosine does not see.
\<close>

theorem C3_wind_bias:
  "get_wind_bias s dy dx =
     (if wind_str s = 0 then 1
      else max 0.1 (1 + wind_str s
             * cos (spec_angular_distance (atan2 (of_int dx) (- of_int dy) * 180 / pi) (wind_dir s)
                    * pi / 180)))
   \<and> 0 \<le> spec_angular_distance (atan2 (of_int dx) (- of_int dy) * 180 / pi) (wind_dir s)
   \<and> spec_angular_distance (atan2 (of_int dx) (- of_int dy) * 180 / pi) (wind_dir s) \<le> 180
   \<and> (0 \<le> wind_dir s \<and> wind_dir s < 360 \<longrightarrow>
        \<bar>wind_diff s dy dx\<bar>
          = spec_angular_distance (atan2 (of_int dx) (- of_int dy) * 180 / pi) (wind_dir s))
   \<and> wind_angle dy dx = atan2 (of_int dx) (- of_int dy) * 180 / pi
   \<and> wind_angle (- 1) 0 = 0 \<and> wind_angle (- 1) 1 = 45 \<and> wind_angle 0 1 = 90
   \<and> wind_angle 1 1 = 135 \<and> wind_angle 1 0 = 180 \<and> wind_angle 1 (- 1) = - 135
   \<and> wind_angle 0 (- 1) = - 90 \<and> wind_angle (- 1) (- 1) = - 45"
proof -
  have angle: "wind_angle dy dx = atan2 (of_int dx) (- of_int dy) * 180 / pi"
    by (simp add: wind_angle_def)
  have bias: "get_wind_bias s dy dx =
     (if wind_str s = 0 then 1
      else max 0.1 (1 + wind_str s
             * cos (spec_angular_distance (wind_angle dy dx) (wind_dir s) * pi / 180)))"
  proof -
    have "cos (radians (wind_diff s dy dx))
            = cos (radians (spec_angular_distance (wind_angle dy dx) (wind_dir s)))"
      by (simp only: cos_wind_diff cos_spec_angular_distance)
    then have "cos (radians (wind_diff s dy dx))
            = cos (spec_angular_distance (wind_angle dy dx) (wind_dir s) * pi / 180)"
      by (simp only: radians_def)
    then show ?thesis
      by (simp add: get_wind_bias_def)
  qed
  show ?thesis
    using bias spec_angular_distance_range [of "wind_angle dy dx" "wind_dir s"]
      abs_wind_diff [of s dy dx] wind_angle_cardinal wind_angle_diagonal wind_angle_south_west
    unfolding angle by simp
qed


theorem C3_wind_bias_witness:
  "(0::real) \<le> 350 \<and> (350::real) < 360
   \<and> \<bar>wind_diff ((new_sim 1 1)\<lparr>wind_dir := 350\<rparr>) 1 (- 1)\<bar> = 125
   \<and> get_wind_bias ((new_sim 1 1)\<lparr>wind_str := 0\<rparr>) 1 (- 1) = 1
   \<and> get_wind_bias (new_sim 1 1) (- 1) 0 = 3 / 2
   \<and> get_wind_bias (new_sim 1 1) 1 0 = 1 / 2
   \<and> get_wind_bias ((new_sim 1 1)\<lparr>wind_str := 1\<rparr>) 1 0 = 1 / 10"
proof -
  let ?w = "(new_sim 1 1)\<lparr>wind_dir := 350\<rparr>"
  have north: "atan2 (of_int 0) (- of_int (- 1)) * 180 / pi = 0"
    by (simp add: atan2_def)
  have south: "atan2 (of_int 0) (- of_int 1) * 180 / pi = 180"
    using pi_gt_zero by (simp add: atan2_def)
  have sw: "atan2 (of_int (- 1)) (- of_int 1) * 180 / pi = - 135"
    using C3_wind_bias [of ?w 1 "- 1"] by simp
  have d0: "spec_angular_distance 0 0 = 0"
    by (simp add: spec_angular_distance_def)
  have "\<lfloor>180 / 360 :: real\<rfloor> = 0"
    by (intro floor_unique) simp_all
  then have d180: "spec_angular_distance 180 0 = 180"
    by (simp add: spec_angular_distance_def)
  have "\<lfloor>485 / 360 :: real\<rfloor> = 1"
    by (intro floor_unique) simp_all
  then have d485: "spec_angular_distance (- 135) 350 = 125"
    by (simp add: spec_angular_distance_def)
  have wd: "0 \<le> wind_dir ?w \<and> wind_dir ?w < 360"
    by simp
  have a: "\<bar>wind_diff ?w 1 (- 1)\<bar> = 125"
    using C3_wind_bias [of ?w 1 "- 1"] wd unfolding sw by (simp add: d485)
  have b: "get_wind_bias ((new_sim 1 1)\<lparr>wind_str := 0\<rparr>) 1 (- 1) = 1"
    using C3_wind_bias [of "(new_sim 1 1)\<lparr>wind_str := 0\<rparr>" 1 "- 1"] by simp
  have c: "get_wind_bias (new_sim 1 1) (- 1) 0 = 3 / 2"
    using C3_wind_bias [of "new_sim 1 1" "- 1" 0, THEN conjunct1] unfolding north
    by (simp add: new_sim_def d0)
  have d: "get_wind_bias (new_sim 1 1) 1 0 = 1 / 2"
    using C3_wind_bias [of "new_sim 1 1" 1 0, THEN conjunct1] unfolding south
    by (simp add: new_sim_def d180)
  have e: "get_wind_bias ((new_sim 1 1)\<lparr>wind_str := 1\<rparr>) 1 0 = 1 / 10"
    using C3_wind_bias [of "(new_sim 1 1)\<lparr>wind_str := 1\<rparr>" 1 0, THEN conjunct1] unfolding south
    by (simp add: new_sim_def d180)
  from a b c d e show ?thesis by simp
qed

section \<open>The program's grid\<close>

lemma reachable_program_grid:
  assumes "reachable GRID_HEIGHT GRID_WIDTH s"
  shows "length (grid s) = 80 \<and> (\<forall>r\<in>set (grid s). length r = 120)"
  using reachable_inv [OF assms]
  by (simp add: wf_grid_def GRID_HEIGHT_def GRID_WIDTH_def list_all_iff)

end
